theory Spec2Isabelle
  imports Main "HOL-Library.Word"
begin

section \<open>JavaScript strings and regular expressions\<close>

text \<open>
  A JavaScript string is a sequence of UTF-16 code units, and \<^verbatim>\<open>length\<close> counts code
  units. Among strings the only falsy value is the empty string.
\<close>

type_synonym jschar = "16 word"
type_synonym jsstring = "jschar list"

text \<open>An ASCII literal as a JavaScript string.\<close>

definition js :: "string \<Rightarrow> jsstring" where
  "js s = map of_char s"

definition len :: "jsstring \<Rightarrow> int" where
  "len s = int (length s)"

datatype js_error = SyntaxError | TypeError

text \<open>
  The line terminators (what \<^verbatim>\<open>.\<close> does not match, and where \<^verbatim>\<open>^\<close> and \<^verbatim>\<open>$\<close> anchor
  under the \<^verbatim>\<open>m\<close> flag) and the white space of \<^verbatim>\<open>\s\<close> and of \<^verbatim>\<open>trim\<close>.
\<close>

definition isLT :: "jschar \<Rightarrow> bool" where
  "isLT c = (c = 0x0A \<or> c = 0x0D \<or> c = 0x2028 \<or> c = 0x2029)"

definition isSpace :: "jschar \<Rightarrow> bool" where
  "isSpace c = (c = 0x09 \<or> c = 0x0A \<or> c = 0x0B \<or> c = 0x0C \<or> c = 0x0D \<or> c = 0x20
     \<or> c = 0xA0 \<or> c = 0x1680 \<or> (0x2000 \<le> c \<and> c \<le> 0x200A) \<or> c = 0x2028 \<or> c = 0x2029
     \<or> c = 0x202F \<or> c = 0x205F \<or> c = 0x3000 \<or> c = 0xFEFF)"

text \<open>
  A regular expression is modelled by what one match attempt at one position does: given
  the code unit before the position (for \<^verbatim>\<open>^\<close> and look-behind) and the rest of the
  string from the position on, it gives the captured value and the length of the match,
  or fails. No expression of the source matches the empty string.
\<close>

type_synonym 'v matcher = "jschar option \<Rightarrow> jsstring \<Rightarrow> ('v \<times> nat) option"

datatype 'v item = Ch jschar | Hit 'v

text \<open>
  The iteration of a global expression over a string (\<^verbatim>\<open>replace\<close>, \<^verbatim>\<open>match\<close> and \<^verbatim>\<open>split\<close>
  share it): from \<^verbatim>\<open>lastIndex\<close> on, the first position where an attempt succeeds gives the
  next match, and the search resumes at its end. The second argument is the code unit
  before the position, the third the number of code units still inside the last match.
\<close>

fun scanAll :: "'v matcher \<Rightarrow> jschar option \<Rightarrow> nat \<Rightarrow> jsstring \<Rightarrow> 'v item list" where
  "scanAll m prev k [] = []"
| "scanAll m prev (Suc k) (c # cs) = scanAll m (Some c) k cs"
| "scanAll m prev 0 (c # cs) =
     (case m prev (c # cs) of
        Some (v, n) \<Rightarrow> Hit v # scanAll m (Some c) (n - 1) cs
      | None \<Rightarrow> Ch c # scanAll m (Some c) 0 cs)"

definition matches :: "'v matcher \<Rightarrow> jsstring \<Rightarrow> 'v item list" where
  "matches m s = scanAll m None 0 s"

text \<open>\<^verbatim>\<open>s.split(re)\<close>: the substrings between the matches, empty ones included.\<close>

fun pieces :: "'v item list \<Rightarrow> jsstring list" where
  "pieces [] = [[]]"
| "pieces (Ch c # xs) = (case pieces xs of [] \<Rightarrow> [[c]] | p # ps \<Rightarrow> (c # p) # ps)"
| "pieces (Hit v # xs) = [] # pieces xs"

definition split :: "'v matcher \<Rightarrow> jsstring \<Rightarrow> jsstring list" where
  "split m s = pieces (matches m s)"

text \<open>\<^verbatim>\<open>s.match(re) || []\<close> for a global expression: the matched substrings.\<close>

fun hits :: "'v item list \<Rightarrow> 'v list" where
  "hits [] = []"
| "hits (Ch c # xs) = hits xs"
| "hits (Hit v # xs) = v # hits xs"

definition matchOrEmpty :: "jsstring matcher \<Rightarrow> jsstring \<Rightarrow> jsstring list" where
  "matchOrEmpty m s = hits (matches m s)"

text \<open>\<^verbatim>\<open>s.replace(re, f)\<close> for a global expression and a callback without state.\<close>

fun substitute :: "('v \<Rightarrow> jsstring) \<Rightarrow> 'v item list \<Rightarrow> jsstring" where
  "substitute f [] = []"
| "substitute f (Ch c # xs) = c # substitute f xs"
| "substitute f (Hit v # xs) = f v @ substitute f xs"

definition replaceAll :: "'v matcher \<Rightarrow> ('v \<Rightarrow> jsstring) \<Rightarrow> jsstring \<Rightarrow> jsstring" where
  "replaceAll m f s = substitute f (matches m s)"

text \<open>\<^verbatim>\<open>String(n)\<close> for a natural number: its decimal digits.\<close>

function decimal :: "nat \<Rightarrow> jsstring" where
  "decimal n = (if n < 10 then [0x30 + of_nat n] else decimal (n div 10) @ [0x30 + of_nat (n mod 10)])"
  by pat_completeness auto
termination
  by (relation "measure (\<lambda>n. n)") auto

declare decimal.simps [simp del]

section \<open>The expressions of the segmenter\<close>

text \<open>\<^verbatim>\<open>/\n{2,}/\<close>: a maximal run of two or more newlines.\<close>

definition paragraphBreak :: "unit matcher" where
  "paragraphBreak prev s =
     (let n = length (takeWhile (\<lambda>c. c = 0x0A) s) in if 2 \<le> n then Some ((), n) else None)"

text \<open>
  \<^verbatim>\<open>/(?<=[.!?\<dots>])\s+(?=[^\s])/u\<close> (the fourth code unit of the class is U+2026): after one
  of the four marks, the maximal run of white space, when a code unit follows the run
  (it is not white space, the run being maximal; a shorter run is followed by white space).
\<close>

definition isSentenceEnd :: "jschar \<Rightarrow> bool" where
  "isSentenceEnd c = (c = 0x2E \<or> c = 0x21 \<or> c = 0x3F \<or> c = 0x2026)"

definition sentenceBreak :: "unit matcher" where
  "sentenceBreak prev s =
     (case prev of
        None \<Rightarrow> None
      | Some p \<Rightarrow>
          if isSentenceEnd p then
            (let n = length (takeWhile isSpace s)
             in if 1 \<le> n \<and> n < length s then Some ((), n) else None)
          else None)"

text \<open>\<^verbatim>\<open>/\s+/\<close>: a maximal run of white space.\<close>

definition wordBreak :: "unit matcher" where
  "wordBreak prev s =
     (let n = length (takeWhile isSpace s) in if 1 \<le> n then Some ((), n) else None)"

text \<open>
  \<^verbatim>\<open>.{1,N}\<close> for \<open>1 \<le> N\<close>: greedily up to \<open>N\<close> code units that are not line
  terminators, at least one.
\<close>

definition dotRun :: "nat \<Rightarrow> jsstring matcher" where
  "dotRun N prev s =
     (let n = min N (length (takeWhile (\<lambda>c. \<not> isLT c) s))
      in if 1 \<le> n then Some (take n s, n) else None)"

text \<open>
  \<^verbatim>\<open>.\<close> followed by literal text: outside the \<^verbatim>\<open>u\<close> flag a brace that opens no well-formed
  quantifier is an ordinary character, so \<^verbatim>\<open>.{1,-5}\<close> is a code unit that is not a line
  terminator followed by the six characters \<^verbatim>\<open>{1,-5}\<close>.
\<close>

definition dotLit :: "jsstring \<Rightarrow> jsstring matcher" where
  "dotLit lit prev s =
     (case s of
        [] \<Rightarrow> None
      | c # cs \<Rightarrow>
          if \<not> isLT c \<and> take (length lit) cs = lit
          then Some (take (Suc (length lit)) s, Suc (length lit)) else None)"

text \<open>
  \<^verbatim>\<open>new RegExp(`.{1,${maxLen}}`, 'g')\<close>. The template prints the number with
  Number-to-string, which for an integer of magnitude below \<open>2\<^sup>5\<^sup>3\<close> is its decimal
  digits. With \<open>maxLen = 0\<close> the quantifier \<^verbatim>\<open>{1,0}\<close> has its bounds out of order and
  the constructor throws a SyntaxError; with a negative \<open>maxLen\<close> the braces are literal
  text. From \<open>2\<^sup>5\<^sup>3\<close> on, Number-to-string prints the shortest digits that read back as
  the same number, padded with zeros, and the exponent notation from \<open>10\<^sup>2\<^sup>1\<close> on. For
  \<open>maxLen \<le> - 2\<^sup>5\<^sup>3\<close> the pattern is therefore another text; the constructor accepts
  it as well (the braces are literal again, and in the exponent notation \<^verbatim>\<open>e+\<close> is a
  repeated letter), but which expression it denotes is not modelled here: the matcher
  is left unspecified. (For \<open>maxLen \<ge> 2\<^sup>5\<^sup>3\<close> the expression is never built: no string
  is that long.)
\<close>

definition newRegExpDot :: "int \<Rightarrow> js_error + jsstring matcher" where
  "newRegExpDot maxLen =
     (if 1 \<le> maxLen then Inr (dotRun (nat maxLen))
      else if maxLen = 0 then Inl SyntaxError
      else if - (2 ^ 53) < maxLen
        then Inr (dotLit (js ''{1,-'' @ decimal (nat (- maxLen)) @ js ''}''))
      else Inr undefined)"

section \<open>The segmenter\<close>

definition MAX_TELEGRAM :: int where
  "MAX_TELEGRAM = 4096"

definition SAFE_BUDGET :: int where
  "SAFE_BUDGET = 4000"

text \<open>\<^verbatim>\<open>buf ? buf + sep + x : x\<close>\<close>

definition candidateOf :: "jsstring \<Rightarrow> jsstring \<Rightarrow> jsstring \<Rightarrow> jsstring" where
  "candidateOf buf sep x = (if buf \<noteq> [] then buf @ sep @ x else x)"

text \<open>\<^verbatim>\<open>if (buf) parts.push(buf)\<close>\<close>

definition pushIf :: "jsstring list \<Rightarrow> jsstring \<Rightarrow> jsstring list" where
  "pushIf parts buf = (if buf \<noteq> [] then parts @ [buf] else parts)"

text \<open>
  The three nested loops, innermost first. Each takes the units still to visit and the
  state it mutates (\<open>parts\<close> and its buffer) and returns the state at loop exit, or the
  exception that left the loop.
\<close>

fun wordLoop :: "int \<Rightarrow> jsstring list \<Rightarrow> jsstring list \<times> jsstring
                   \<Rightarrow> js_error + jsstring list \<times> jsstring" where
  "wordLoop maxLen [] st = Inr st"
| "wordLoop maxLen (w # ws) (parts, wBuf) =
     (let wCandidate = candidateOf wBuf (js '' '') w in
      if len wCandidate \<le> maxLen then wordLoop maxLen ws (parts, wCandidate)
      else if len w \<le> maxLen then wordLoop maxLen ws (pushIf parts wBuf, w)
      else
        (case newRegExpDot maxLen of
           Inl e \<Rightarrow> Inl e
         | Inr re \<Rightarrow> wordLoop maxLen ws (pushIf parts wBuf @ matchOrEmpty re w, [])))"

fun sentenceLoop :: "int \<Rightarrow> jsstring list \<Rightarrow> jsstring list \<times> jsstring
                       \<Rightarrow> js_error + jsstring list \<times> jsstring" where
  "sentenceLoop maxLen [] st = Inr st"
| "sentenceLoop maxLen (s # ss) (parts, sBuf) =
     (let sCandidate = candidateOf sBuf (js '' '') s in
      if len sCandidate \<le> maxLen then sentenceLoop maxLen ss (parts, sCandidate)
      else if len s \<le> maxLen then sentenceLoop maxLen ss (pushIf parts sBuf, s)
      else
        (case wordLoop maxLen (split wordBreak s) (pushIf parts sBuf, []) of
           Inl e \<Rightarrow> Inl e
         | Inr (parts', wBuf) \<Rightarrow> sentenceLoop maxLen ss (pushIf parts' wBuf, [])))"

fun paragraphLoop :: "int \<Rightarrow> jsstring list \<Rightarrow> jsstring list \<times> jsstring
                        \<Rightarrow> js_error + jsstring list \<times> jsstring" where
  "paragraphLoop maxLen [] st = Inr st"
| "paragraphLoop maxLen (p # ps) (parts, buffer) =
     (let candidate = candidateOf buffer [0x0A, 0x0A] p in
      if len candidate \<le> maxLen then paragraphLoop maxLen ps (parts, candidate)
      else if len p \<le> maxLen then paragraphLoop maxLen ps (pushIf parts buffer, p)
      else
        (case sentenceLoop maxLen (split sentenceBreak p) (pushIf parts buffer, []) of
           Inl e \<Rightarrow> Inl e
         | Inr (parts', sBuf) \<Rightarrow> paragraphLoop maxLen ps (pushIf parts' sBuf, [])))"

text \<open>
  The final safety pass: \<^verbatim>\<open>parts.flatMap(...)\<close>, each part above the cap replaced by its
  \<^verbatim>\<open>.{1,4000}\<close> matches.
\<close>

definition safetyPass :: "jsstring list \<Rightarrow> jsstring list" where
  "safetyPass parts =
     concat (map (\<lambda>part. if len part \<le> MAX_TELEGRAM then [part]
                          else matchOrEmpty (dotRun (nat SAFE_BUDGET)) part) parts)"

definition chunkForTelegram :: "jsstring \<Rightarrow> int \<Rightarrow> js_error + jsstring list" where
  "chunkForTelegram text maxLen =
     (if text = [] \<or> len text \<le> maxLen then Inr [text]
      else
        (case paragraphLoop maxLen (split paragraphBreak text) ([], []) of
           Inl e \<Rightarrow> Inl e
         | Inr (parts, buffer) \<Rightarrow> Inr (safetyPass (pushIf parts buffer))))"

section \<open>The escaper\<close>

text \<open>The class \<^verbatim>\<open>[\\_*[\]()~`>#+\-=|{}.!]\<close>; the first code unit listed is the backslash.\<close>

definition isReserved :: "jschar \<Rightarrow> bool" where
  "isReserved c = (c \<in> set (0x5C # js ''_*[]()~`>#+-=|{}.!''))"

definition reservedChar :: "jschar matcher" where
  "reservedChar prev s =
     (case s of [] \<Rightarrow> None | c # cs \<Rightarrow> if isReserved c then Some (c, 1) else None)"

text \<open>\<^verbatim>\<open>escapeMarkdownV2\<close>: the replacement \<^verbatim>\<open>'\\$1'\<close> is a backslash and the matched character.\<close>

definition escapeMarkdownV2 :: "jsstring \<Rightarrow> jsstring" where
  "escapeMarkdownV2 text =
     (if text = [] then [] else replaceAll reservedChar (\<lambda>c. [0x5C, c]) text)"

text \<open>\<^verbatim>\<open>escapeForUrl\<close>: \<^verbatim>\<open>/[)\\]/g\<close> replaced by \<^verbatim>\<open>'\\$&'\<close>.\<close>

definition urlBreaker :: "jschar matcher" where
  "urlBreaker prev s =
     (case s of [] \<Rightarrow> None | c # cs \<Rightarrow> if c = 0x29 \<or> c = 0x5C then Some (c, 1) else None)"

definition escapeForUrl :: "jsstring \<Rightarrow> jsstring" where
  "escapeForUrl url = replaceAll urlBreaker (\<lambda>c. [0x5C, c]) url"

text \<open>\<^verbatim>\<open>String.prototype.trim\<close>\<close>

definition trim :: "jsstring \<Rightarrow> jsstring" where
  "trim s = rev (dropWhile isSpace (rev (dropWhile isSpace s)))"

text \<open>
  \<^verbatim>\<open>/^[a-z0-9.-]+\.[a-z]{2,}([/:?#].*)?$/i.test(raw)\<close>. Without the \<^verbatim>\<open>u\<close> flag, \<^verbatim>\<open>i\<close>
  adds exactly the ASCII capitals to \<^verbatim>\<open>[a-z]\<close>. The letters and the dot are host
  characters and the four characters that may open the tail are not, so a match splits the
  string at the end of its longest prefix \<open>h\<close> of host characters: the tail is empty, or
  opens with one of \<^verbatim>\<open>/ : ? #\<close> and has no line terminator after it; and \<open>h\<close> ends with
  a dot and two or more letters, with at least one host character before the dot.
\<close>

definition isAlpha :: "jschar \<Rightarrow> bool" where
  "isAlpha c = ((0x61 \<le> c \<and> c \<le> 0x7A) \<or> (0x41 \<le> c \<and> c \<le> 0x5A))"

definition isHostChar :: "jschar \<Rightarrow> bool" where
  "isHostChar c = (isAlpha c \<or> (0x30 \<le> c \<and> c \<le> 0x39) \<or> c = 0x2E \<or> c = 0x2D)"

definition domainLike :: "jsstring \<Rightarrow> bool" where
  "domainLike raw =
     (let h = takeWhile isHostChar raw;
          tail = dropWhile isHostChar raw;
          tld = takeWhile isAlpha (rev h);
          front = dropWhile isAlpha (rev h)
      in 2 \<le> length tld
         \<and> (case front of [] \<Rightarrow> False | d # host \<Rightarrow> d = 0x2E \<and> host \<noteq> [])
         \<and> (case tail of [] \<Rightarrow> True
             | c # cs \<Rightarrow> (c = 0x2F \<or> c = 0x3A \<or> c = 0x3F \<or> c = 0x23) \<and> (\<forall>x\<in>set cs. \<not> isLT x)))"

text \<open>
  \<^verbatim>\<open>new URL(raw).toString()\<close> is the platform's URL parser, not code of this repository:
  the functions below take it as the parameter \<open>URL\<close>, which gives the serialised URL or
  the TypeError the constructor throws. \<open>urlTable\<close> is a constructor that knows the listed
  serialisations and rejects every other string.
\<close>

type_synonym url_ctor = "jsstring \<Rightarrow> js_error + jsstring"

definition urlTable :: "(jsstring \<times> jsstring) list \<Rightarrow> url_ctor" where
  "urlTable tbl raw = (case map_of tbl raw of Some u \<Rightarrow> Inr u | None \<Rightarrow> Inl TypeError)"

text \<open>
  In the escaper too a result \<open>Inl e\<close> is the exception \<open>e\<close> leaving the function, and
  \<open>Inr v\<close> the value returned. \<^verbatim>\<open>normalizeAndValidateUrl\<close>: \<open>None\<close> is \<^verbatim>\<open>null\<close>. Each call of
  the constructor stands in a \<^verbatim>\<open>try\<close> whose \<^verbatim>\<open>catch\<close> block is empty, so the exception
  \<open>e\<close> of the first call is dropped and control goes on to the domain test, and the
  exception \<open>e2\<close> of the second call is dropped and control goes on to \<^verbatim>\<open>return null\<close>.
\<close>

definition normalizeAndValidateUrl :: "url_ctor \<Rightarrow> jsstring \<Rightarrow> js_error + jsstring option" where
  "normalizeAndValidateUrl URL url =
     (let raw = trim url in
      case URL raw of
        Inr u \<Rightarrow> Inr (Some u)
      | Inl e \<Rightarrow>
          if domainLike raw then
            (case URL (js ''https://'' @ raw) of Inr u2 \<Rightarrow> Inr (Some u2) | Inl e2 \<Rightarrow> Inr None)
          else Inr None)"

text \<open>
  \<^verbatim>\<open>/^(#{1,6})\s+(.*)$/gm\<close>, capturing the title: at the start of a line, a run of one to
  six \<^verbatim>\<open>#\<close> (a seventh makes every split of the run fail), the maximal run of white
  space, which may cross line ends, and the rest of the line reached.
\<close>

definition heading :: "jsstring matcher" where
  "heading prev s =
     (if (case prev of None \<Rightarrow> True | Some p \<Rightarrow> isLT p) then
        (let k = length (takeWhile (\<lambda>c. c = 0x23) s);
             w = length (takeWhile isSpace (drop k s));
             title = takeWhile (\<lambda>c. \<not> isLT c) (drop (k + w) s)
         in if 1 \<le> k \<and> k \<le> 6 \<and> 1 \<le> w then Some (title, k + w + length title) else None)
      else None)"

definition normalizeHeadings :: "jsstring \<Rightarrow> jsstring" where
  "normalizeHeadings text = replaceAll heading (\<lambda>title. js ''*'' @ trim title @ js ''*'') text"

text \<open>\<^verbatim>\<open>s.indexOf(pat)\<close>\<close>

fun indexOf :: "jsstring \<Rightarrow> jsstring \<Rightarrow> nat option" where
  "indexOf pat [] = (if pat = [] then Some 0 else None)"
| "indexOf pat (c # cs) =
     (if take (length pat) (c # cs) = pat then Some 0 else map_option Suc (indexOf pat cs))"

text \<open>
  \<^verbatim>\<open>D([\s\S]{k,}?)D\<close> for a literal delimiter \<open>D\<close>, capturing the interior: the lazy
  quantifier stops at the first \<open>D\<close> found \<open>k\<close> or more code units after the opening one.
\<close>

definition delimited :: "jsstring \<Rightarrow> nat \<Rightarrow> jsstring matcher" where
  "delimited d k prev s =
     (if take (length d) s = d then
        (let t = drop (length d) s in
         case indexOf d (drop k t) of
           None \<Rightarrow> None
         | Some j \<Rightarrow> Some (take (k + j) t, length d + (k + j) + length d))
      else None)"

text \<open>\<^verbatim>\<open>normalizeCommonMd\<close>: \<^verbatim>\<open>'*$1*'\<close> and \<^verbatim>\<open>'_$1_'\<close> put the interior between single delimiters.\<close>

definition normalizeCommonMd :: "jsstring \<Rightarrow> jsstring" where
  "normalizeCommonMd text =
     replaceAll (delimited (js ''__'') 0) (\<lambda>inner. js ''_'' @ inner @ js ''_'')
       (replaceAll (delimited (js ''**'') 0) (\<lambda>inner. js ''*'' @ inner @ js ''*'') text)"

text \<open>
  \<^verbatim>\<open>/\[([^\]\n]+)\]\(([^)]+)\)/g\<close>, capturing label and url: both classes are matched by
  their maximal runs, since the character required after each run is excluded from it.
\<close>

definition linkSpan :: "(jsstring \<times> jsstring) matcher" where
  "linkSpan prev s =
     (case s of
        [] \<Rightarrow> None
      | c # cs \<Rightarrow>
          if c = 0x5B then
            (let label = takeWhile (\<lambda>x. x \<noteq> 0x5D \<and> x \<noteq> 0x0A) cs;
                 r1 = drop (length label) cs;
                 url = takeWhile (\<lambda>x. x \<noteq> 0x29) (drop 2 r1);
                 r2 = drop (length url) (drop 2 r1)
             in if label \<noteq> [] \<and> take 2 r1 = js ''](''  \<and> url \<noteq> [] \<and> r2 \<noteq> []
                then Some ((label, url), 1 + length label + 2 + length url + 1) else None)
          else None)"

text \<open>
  \<^verbatim>\<open>s.replace(re, callback)\<close> where the callback reads and extends one of the placeholder
  arrays: the array is passed through the matches from left to right, and an exception
  of the callback leaves \<^verbatim>\<open>replace\<close> at once.
\<close>

fun replaceWith :: "('v \<Rightarrow> jsstring list \<Rightarrow> js_error + jsstring \<times> jsstring list) \<Rightarrow> 'v item list
                      \<Rightarrow> jsstring list \<Rightarrow> js_error + jsstring \<times> jsstring list" where
  "replaceWith cb [] acc = Inr ([], acc)"
| "replaceWith cb (Ch c # xs) acc =
     (case replaceWith cb xs acc of Inl e \<Rightarrow> Inl e | Inr (t, acc') \<Rightarrow> Inr (c # t, acc'))"
| "replaceWith cb (Hit v # xs) acc =
     (case cb v acc of
        Inl e \<Rightarrow> Inl e
      | Inr (r, acc1) \<Rightarrow>
          (case replaceWith cb xs acc1 of Inl e \<Rightarrow> Inl e | Inr (t, acc') \<Rightarrow> Inr (r @ t, acc')))"

text \<open>The placeholder token: U+27EC, the tag letter, the index in decimal, U+27ED.\<close>

definition placeholder :: "jschar \<Rightarrow> nat \<Rightarrow> jsstring" where
  "placeholder tag idx = [0x27EC, tag] @ decimal idx @ [0x27ED]"

definition linkCallback :: "url_ctor \<Rightarrow> jsstring \<times> jsstring \<Rightarrow> jsstring list
                              \<Rightarrow> js_error + jsstring \<times> jsstring list" where
  "linkCallback URL m links =
     (case m of (label, url) \<Rightarrow>
        (case normalizeAndValidateUrl URL url of
           Inl e \<Rightarrow> Inl e
         | Inr None \<Rightarrow> Inr (escapeMarkdownV2 label, links)
         | Inr (Some normalizedUrl) \<Rightarrow>
             if normalizedUrl = [] then Inr (escapeMarkdownV2 label, links)
             else Inr (placeholder 0x4C (length links),
                       links @ [js ''['' @ escapeMarkdownV2 label @ js ''](''
                                  @ escapeForUrl normalizedUrl @ js '')''])))"

definition spanCallback :: "jschar \<Rightarrow> jsstring \<Rightarrow> jsstring \<Rightarrow> jsstring list
                              \<Rightarrow> js_error + jsstring \<times> jsstring list" where
  "spanCallback tag d inner spans =
     Inr (placeholder tag (length spans), spans @ [d @ escapeMarkdownV2 inner @ d])"

text \<open>
  The replacement text of \<^verbatim>\<open>text.replace(pattern, replacement)\<close> with two strings: in the
  replacement, \<^verbatim>\<open>$$\<close> is a dollar sign, \<^verbatim>\<open>$&\<close> the matched text, \<^verbatim>\<open>$`\<close> the text before the
  match and \<^verbatim>\<open>$'\<close> the text after it; there are no captures, so any other \<^verbatim>\<open>$\<close> stands
  for itself.
\<close>

fun getSubstitution :: "jsstring \<Rightarrow> jsstring \<Rightarrow> jsstring \<Rightarrow> jsstring \<Rightarrow> jsstring" where
  "getSubstitution matched pre post [] = []"
| "getSubstitution matched pre post [c] = [c]"
| "getSubstitution matched pre post (c # d # r) =
     (if c = 0x24 \<and> d = 0x24 then 0x24 # getSubstitution matched pre post r
      else if c = 0x24 \<and> d = 0x26 then matched @ getSubstitution matched pre post r
      else if c = 0x24 \<and> d = 0x60 then pre @ getSubstitution matched pre post r
      else if c = 0x24 \<and> d = 0x27 then post @ getSubstitution matched pre post r
      else c # getSubstitution matched pre post (d # r))"

text \<open>\<^verbatim>\<open>text.replace(pattern, replacement)\<close>: the first occurrence only.\<close>

definition replaceFirst :: "jsstring \<Rightarrow> jsstring \<Rightarrow> jsstring \<Rightarrow> jsstring" where
  "replaceFirst pat replacement text =
     (case indexOf pat text of
        None \<Rightarrow> text
      | Some i \<Rightarrow>
          (let pre = take i text; post = drop (i + length pat) text
           in pre @ getSubstitution pat pre post replacement @ post))"

text \<open>\<^verbatim>\<open>placeholders.xs.forEach((md, i) => { text = text.replace(token i, md); })\<close>\<close>

fun restore :: "jschar \<Rightarrow> nat \<Rightarrow> jsstring list \<Rightarrow> jsstring \<Rightarrow> jsstring" where
  "restore tag i [] text = text"
| "restore tag i (md # mds) text = restore tag (Suc i) mds (replaceFirst (placeholder tag i) md text)"

text \<open>
  The four extractions and the global escape: the working text in which the placeholders
  are then restored, with the four placeholder arrays.
\<close>

definition extractSpans :: "url_ctor \<Rightarrow> jsstring
     \<Rightarrow> js_error + jsstring \<times> jsstring list \<times> jsstring list \<times> jsstring list \<times> jsstring list" where
  "extractSpans URL inputText =
     (let text0 = normalizeHeadings (normalizeCommonMd inputText) in
      case replaceWith (linkCallback URL) (matches linkSpan text0) [] of
        Inl e \<Rightarrow> Inl e
      | Inr (text1, links) \<Rightarrow>
      case replaceWith (spanCallback 0x42 (js ''*'')) (matches (delimited (js ''*'') 1) text1) [] of
        Inl e \<Rightarrow> Inl e
      | Inr (text2, bolds) \<Rightarrow>
      case replaceWith (spanCallback 0x49 (js ''_'')) (matches (delimited (js ''_'') 1) text2) [] of
        Inl e \<Rightarrow> Inl e
      | Inr (text3, italics) \<Rightarrow>
      case replaceWith (spanCallback 0x53 (js ''||'')) (matches (delimited (js ''||'') 1) text3) [] of
        Inl e \<Rightarrow> Inl e
      | Inr (text4, spoilers) \<Rightarrow>
      Inr (escapeMarkdownV2 text4, links, bolds, italics, spoilers))"

definition processMarkdownV2Safe :: "url_ctor \<Rightarrow> jsstring \<Rightarrow> js_error + jsstring" where
  "processMarkdownV2Safe URL inputText =
     (if inputText = [] then Inr []
      else
        (case extractSpans URL inputText of
           Inl e \<Rightarrow> Inl e
         | Inr (text, links, bolds, italics, spoilers) \<Rightarrow>
             Inr (restore 0x53 0 spoilers (restore 0x49 0 italics (restore 0x42 0 bolds
               (restore 0x4C 0 links text))))))"

section \<open>Predicates on the escaper's texts\<close>

text \<open>
  The reserved characters of a text that no backslash escapes, from left to right: a
  backslash escapes the code unit after it.
\<close>

fun unescaped :: "jsstring \<Rightarrow> jsstring" where
  "unescaped [] = []"
| "unescaped [c] = (if isReserved c then [c] else [])"
| "unescaped (c # d # r) =
     (if c = 0x5C then unescaped r
      else if isReserved c then c # unescaped (d # r)
      else unescaped (d # r))"

text \<open>
  The shape of an escaped text with its markup spans, read by an automaton from left to
  right. At the top level a code unit is an unreserved character, or a backslash
  followed by a reserved character, or it opens a span: \<^verbatim>\<open>*\<close> a bold span, \<^verbatim>\<open>_\<close> an
  italic span, \<^verbatim>\<open>||\<close> a spoiler span and \<^verbatim>\<open>[\<close> the label of a link. Inside a span the
  code units are again unreserved characters and backslashes followed by a reserved
  character, at least one of them, up to the closing delimiter: \<^verbatim>\<open>*\<close>, \<^verbatim>\<open>_\<close>, \<^verbatim>\<open>||\<close>, and
  for a label \<^verbatim>\<open>](\<close>, which opens the url of the link. In the url a backslash is followed
  by \<^verbatim>\<open>)\<close> or a backslash, every other code unit stands for itself, and \<^verbatim>\<open>)\<close> closes the
  link after at least one code unit. A text is \<open>flat\<close> when the automaton reads all of
  it and ends at the top level: every span is closed and not empty, spans do not nest,
  and no reserved character is unescaped except the delimiters of the spans and the
  characters of a url other than \<^verbatim>\<open>)\<close> and backslash.
\<close>

datatype span = Bold | Italic | Spoiler | Label

datatype mode = Top | TopEsc | TopBar | Opened span | In span | InEsc span | CloseBar | Bracket
  | UrlOpened | Url | UrlEsc

fun closer :: "span \<Rightarrow> jschar" where
  "closer Bold = 0x2A"
| "closer Italic = 0x5F"
| "closer Spoiler = 0x7C"
| "closer Label = 0x5D"

fun closed :: "span \<Rightarrow> mode" where
  "closed Bold = Top"
| "closed Italic = Top"
| "closed Spoiler = CloseBar"
| "closed Label = Bracket"

fun flatStep :: "mode \<Rightarrow> jschar \<Rightarrow> mode option" where
  "flatStep Top c =
     (if c = 0x5C then Some TopEsc
      else if c = 0x2A then Some (Opened Bold)
      else if c = 0x5F then Some (Opened Italic)
      else if c = 0x7C then Some TopBar
      else if c = 0x5B then Some (Opened Label)
      else if isReserved c then None else Some Top)"
| "flatStep TopEsc c = (if isReserved c then Some Top else None)"
| "flatStep TopBar c = (if c = 0x7C then Some (Opened Spoiler) else None)"
| "flatStep (Opened sp) c =
     (if c = 0x5C then Some (InEsc sp)
      else if isReserved c then None else Some (In sp))"
| "flatStep (In sp) c =
     (if c = 0x5C then Some (InEsc sp)
      else if c = closer sp then Some (closed sp)
      else if isReserved c then None else Some (In sp))"
| "flatStep (InEsc sp) c = (if isReserved c then Some (In sp) else None)"
| "flatStep CloseBar c = (if c = 0x7C then Some Top else None)"
| "flatStep Bracket c = (if c = 0x28 then Some UrlOpened else None)"
| "flatStep UrlOpened c =
     (if c = 0x5C then Some UrlEsc else if c = 0x29 then None else Some Url)"
| "flatStep Url c =
     (if c = 0x5C then Some UrlEsc else if c = 0x29 then Some Top else Some Url)"
| "flatStep UrlEsc c = (if c = 0x29 \<or> c = 0x5C then Some Url else None)"

fun flatRun :: "mode \<Rightarrow> jsstring \<Rightarrow> mode option" where
  "flatRun m [] = Some m"
| "flatRun m (c # cs) = (case flatStep m c of None \<Rightarrow> None | Some m' \<Rightarrow> flatRun m' cs)"

definition flat :: "jsstring \<Rightarrow> bool" where
  "flat s = (flatRun Top s = Some Top)"

text \<open>
  A stored span is free of replacement patterns when no \<^verbatim>\<open>$\<close> in it is followed by \<^verbatim>\<open>$\<close>,
  \<^verbatim>\<open>&\<close>, a backquote or \<^verbatim>\<open>'\<close>: then \<^verbatim>\<open>text.replace(token, md)\<close> inserts it as it is.
  The inputs whose spans are plain: the input has no U+27EC, no link stored by the
  extraction has one (the label comes from the input, so this is about the serialised
  url), and every stored span, link or other, is free of replacement patterns.
\<close>

fun patternFree :: "jsstring \<Rightarrow> bool" where
  "patternFree [] = True"
| "patternFree [c] = True"
| "patternFree (c # d # r) =
     (\<not> (c = 0x24 \<and> (d = 0x24 \<or> d = 0x26 \<or> d = 0x60 \<or> d = 0x27)) \<and> patternFree (d # r))"

definition plainSpans :: "url_ctor \<Rightarrow> jsstring \<Rightarrow> bool" where
  "plainSpans URL inputText =
     (0x27EC \<notin> set inputText \<and>
      (case extractSpans URL inputText of
         Inl e \<Rightarrow> False
       | Inr (text, links, bolds, italics, spoilers) \<Rightarrow>
           list_all (\<lambda>md. 0x27EC \<notin> set md) links
           \<and> list_all patternFree (links @ bolds @ italics @ spoilers)))"

text \<open>The number of positions of a text at which a pattern occurs.\<close>

fun occurrences :: "jsstring \<Rightarrow> jsstring \<Rightarrow> nat" where
  "occurrences pat [] = 0"
| "occurrences pat (c # cs) =
     (if take (length pat) (c # cs) = pat then 1 else 0) + occurrences pat cs"


text \<open>
  A text is tagged over a set of tag letters when every U+27EC in it is followed by one of
  the tags, decimal digits and U+27ED. A callback is a token step for the tag \<open>X\<close> when,
  on a match that satisfies \<open>Q\<close>, it either returns the next token of \<open>X\<close> and pushes one
  entry, which satisfies \<open>G\<close>, or returns a text without U+27EC and pushes nothing.
  \<open>stageOK\<close> is what one extraction stage keeps: the output is tagged, the array only
  grows and its new entries satisfy \<open>G\<close>, no token of another tag occurs more often than
  before, and a token of \<open>X\<close> occurs at most once and only when its index was issued by
  this stage.
\<close>

definition isDigit :: "jschar \<Rightarrow> bool" where
  "isDigit c = (0x30 \<le> c \<and> c \<le> 0x39)"

definition taggedAt :: "jschar set \<Rightarrow> jsstring \<Rightarrow> bool" where
  "taggedAt T s = (\<exists>tag ds rest. s = tag # ds @ 0x27ED # rest \<and> tag \<in> T \<and> (\<forall>d\<in>set ds. isDigit d))"

fun tagged :: "jschar set \<Rightarrow> jsstring \<Rightarrow> bool" where
  "tagged T [] = True"
| "tagged T (c # s) = ((c = 0x27EC \<longrightarrow> taggedAt T s) \<and> tagged T s)"

definition tokenStep :: "jschar \<Rightarrow> ('v \<Rightarrow> bool) \<Rightarrow> (jsstring \<Rightarrow> bool)
     \<Rightarrow> ('v \<Rightarrow> jsstring list \<Rightarrow> js_error + jsstring \<times> jsstring list) \<Rightarrow> bool" where
  "tokenStep X Q G cb = (\<forall>v acc r acc'. Q v \<longrightarrow> cb v acc = Inr (r, acc') \<longrightarrow>
      (r = placeholder X (length acc) \<and> (\<exists>md. acc' = acc @ [md] \<and> G md))
      \<or> (0x27EC \<notin> set r \<and> acc' = acc))"

definition stageOK :: "jschar set \<Rightarrow> jschar \<Rightarrow> (jsstring \<Rightarrow> bool) \<Rightarrow> jsstring \<Rightarrow> jsstring list
     \<Rightarrow> jsstring \<Rightarrow> jsstring list \<Rightarrow> bool" where
  "stageOK T X G base acc out acc' =
     (tagged (insert X T) out \<and> length acc \<le> length acc'
      \<and> (\<forall>md\<in>set acc'. md \<in> set acc \<or> G md)
      \<and> (\<forall>tag i. tag \<noteq> X \<longrightarrow> occurrences (placeholder tag i) out \<le> occurrences (placeholder tag i) base)
      \<and> (\<forall>i. occurrences (placeholder X i) out \<le> (if length acc \<le> i \<and> i < length acc' then 1 else 0)))"

text \<open>
  The automaton of \<open>flat\<close> with one more bit of state: whether the last code unit was a
  U+27EC read inside a span or a url. It refuses a code unit that is \<open>hot\<close> right after
  such a U+27EC: on a text that it accepts, no token with a hot tag letter begins inside
  a span or a url.
\<close>

fun guardStep :: "(jschar \<Rightarrow> bool) \<Rightarrow> mode \<times> bool \<Rightarrow> jschar \<Rightarrow> (mode \<times> bool) option" where
  "guardStep hot (m, opened) c =
     (if opened \<and> hot c then None
      else (case flatStep m c of
              None \<Rightarrow> None
            | Some m' \<Rightarrow> Some (m', c = 0x27EC \<and> m' \<noteq> Top)))"

fun guardRun :: "(jschar \<Rightarrow> bool) \<Rightarrow> mode \<times> bool \<Rightarrow> jsstring \<Rightarrow> (mode \<times> bool) option" where
  "guardRun hot st [] = Some st"
| "guardRun hot st (c # cs) = (case guardStep hot st c of None \<Rightarrow> None | Some st' \<Rightarrow> guardRun hot st' cs)"

text \<open>
  A text has ink when some code unit of it is not white space. A part or buffer of the
  packing loops is kept when neither the loops nor the final safety pass can lose it: it
  has a code unit other than a line terminator, which \<^verbatim>\<open>.{1,4000}\<close> matches, or \<open>maxLen\<close> is
  within the cap, so that no buffer grows beyond it, and the text is not empty. A loop
  state is kept when a part or the buffer is.
\<close>

definition hasInk :: "jsstring \<Rightarrow> bool" where
  "hasInk s = (\<exists>c\<in>set s. \<not> isSpace c)"

definition keeps :: "int \<Rightarrow> jsstring \<Rightarrow> bool" where
  "keeps maxLen x = ((\<exists>c\<in>set x. \<not> isLT c)
     \<or> (maxLen \<le> MAX_TELEGRAM \<and> x \<noteq> [] \<and> len x \<le> MAX_TELEGRAM))"

definition keepSt :: "int \<Rightarrow> jsstring list \<times> jsstring \<Rightarrow> bool" where
  "keepSt maxLen st = ((\<exists>x\<in>set (fst st). keeps maxLen x) \<or> keeps maxLen (snd st))"

lemmas segmenter_defs = js_def len_def isLT_def isSpace_def matches_def split_def
  matchOrEmpty_def paragraphBreak_def isSentenceEnd_def sentenceBreak_def wordBreak_def
  dotRun_def dotLit_def newRegExpDot_def MAX_TELEGRAM_def SAFE_BUDGET_def candidateOf_def
  pushIf_def safetyPass_def chunkForTelegram_def

lemmas escaper_defs = js_def isLT_def isSpace_def matches_def replaceAll_def isReserved_def reservedChar_def
  escapeMarkdownV2_def urlBreaker_def escapeForUrl_def trim_def isAlpha_def isHostChar_def domainLike_def
  urlTable_def normalizeAndValidateUrl_def heading_def normalizeHeadings_def delimited_def
  normalizeCommonMd_def linkSpan_def placeholder_def linkCallback_def spanCallback_def replaceFirst_def
  extractSpans_def processMarkdownV2Safe_def Let_def

section \<open>Matches and pieces\<close>

lemma hits_scanAll:
  assumes "\<And>prev s v n. m prev s = Some (v, n) \<Longrightarrow> P v"
  shows "v \<in> set (hits (scanAll m prev k s)) \<Longrightarrow> P v"
proof (induction s arbitrary: prev k)
  case Nil
  then show ?case by simp
next
  case (Cons c cs)
  show ?case
  proof (cases k)
    case 0
    with Cons assms show ?thesis
      by (auto split: option.splits)
  next
    case (Suc j)
    with Cons show ?thesis by simp
  qed
qed

lemma dotRun_hit_nonempty: "dotRun N prev s = Some (v, n) \<Longrightarrow> v \<noteq> []"
  by (cases s) (auto simp: dotRun_def Let_def split: if_splits)

lemma dotRun_hit_length: "dotRun N prev s = Some (v, n) \<Longrightarrow> length v \<le> N"
  by (auto simp: dotRun_def Let_def split: if_splits)

lemma matchOrEmpty_dotRun_nonempty: "v \<in> set (matchOrEmpty (dotRun N) s) \<Longrightarrow> v \<noteq> []"
  unfolding matchOrEmpty_def matches_def
  by (rule hits_scanAll [where P = "\<lambda>v. v \<noteq> []"]) (auto dest: dotRun_hit_nonempty)

lemma matchOrEmpty_dotRun_length: "v \<in> set (matchOrEmpty (dotRun N) s) \<Longrightarrow> length v \<le> N"
  unfolding matchOrEmpty_def matches_def
  by (rule hits_scanAll [where P = "\<lambda>v. length v \<le> N"]) (auto dest: dotRun_hit_length)

lemma pieces_not_Nil: "pieces xs \<noteq> []"
  by (induction xs rule: pieces.induct) (auto split: list.splits)

lemma concat_pieces_Ch: "concat (pieces (Ch c # xs)) = c # concat (pieces xs)"
  using pieces_not_Nil [of xs] by (cases "pieces xs") auto

lemma split_keeps:
  assumes m: "\<forall>prev s v n. m prev s = Some (v, n) \<longrightarrow> 1 \<le> n \<and> (\<forall>c\<in>set (take n s). W c)"
  shows "\<forall>c\<in>set (take k s). W c \<Longrightarrow>
    filter (\<lambda>c. \<not> W c) (concat (pieces (scanAll m prev k s))) = filter (\<lambda>c. \<not> W c) s"
proof (induction s arbitrary: prev k)
  case Nil
  then show ?case by simp
next
  case (Cons c cs)
  show ?case
  proof (cases k)
    case (Suc j)
    with Cons.prems have "W c" "\<forall>c\<in>set (take j cs). W c" by auto
    with Cons.IH [of j "Some c"] Suc show ?thesis by simp
  next
    case 0
    show ?thesis
    proof (cases "m prev (c # cs)")
      case None
      with 0 Cons.IH [of 0 "Some c"] show ?thesis
        by (simp del: pieces.simps add: concat_pieces_Ch)
    next
      case (Some a)
      obtain v n where a: "a = (v, n)" by (cases a)
      from m Some a have n: "1 \<le> n" and w: "\<forall>c\<in>set (take n (c # cs)). W c" by blast+
      from n obtain j where j: "n = Suc j" by (cases n) auto
      with w have "W c" "\<forall>c\<in>set (take j cs). W c" by auto
      with Cons.IH [of j "Some c"] 0 Some a j show ?thesis by simp
    qed
  qed
qed

lemma takeWhile_take_all: "n \<le> length (takeWhile P s) \<Longrightarrow> \<forall>c\<in>set (take n s). P c"
proof (induction s arbitrary: n)
  case Nil
  then show ?case by simp
next
  case (Cons a s)
  show ?case
  proof (cases n)
    case 0
    then show ?thesis by simp
  next
    case (Suc j)
    with Cons.prems have "P a" "j \<le> length (takeWhile P s)"
      by (auto split: if_splits)
    with Cons.IH [of j] Suc show ?thesis by simp
  qed
qed


lemma paragraphBreak_white:
  assumes "paragraphBreak prev s = Some (v, n)"
  shows "1 \<le> n \<and> (\<forall>c\<in>set (take n s). isSpace c)"
proof -
  from assms have n: "n = length (takeWhile (\<lambda>c. c = 0x0A) s)" "2 \<le> n"
    by (simp_all add: paragraphBreak_def Let_def split: if_splits)
  have "n \<le> length (takeWhile (\<lambda>c. c = 0x0A) s)" using n(1) by simp
  then have nl: "\<forall>c\<in>set (take n s). c = 0x0A" by (rule takeWhile_take_all)
  have "\<forall>c\<in>set (take n s). isSpace c"
  proof
    fix c assume "c \<in> set (take n s)"
    with nl have "c = 0x0A" by blast
    then show "isSpace c" by (simp add: isSpace_def)
  qed
  with n(2) show ?thesis by simp
qed


lemma sentenceBreak_white:
  assumes "sentenceBreak prev s = Some (v, n)"
  shows "1 \<le> n \<and> (\<forall>c\<in>set (take n s). isSpace c)"
proof -
  from assms have n: "n = length (takeWhile isSpace s)" "1 \<le> n"
    by (simp_all add: sentenceBreak_def Let_def split: option.splits if_splits)
  then have "\<forall>c\<in>set (take n s). isSpace c"
    using takeWhile_take_all [of n isSpace s] by simp
  with n(2) show ?thesis by simp
qed



lemma wordBreak_white:
  assumes "wordBreak prev s = Some (v, n)"
  shows "1 \<le> n \<and> (\<forall>c\<in>set (take n s). isSpace c)"
proof -
  from assms have n: "n = length (takeWhile isSpace s)" "1 \<le> n"
    by (simp_all add: wordBreak_def Let_def split: if_splits)
  then have "\<forall>c\<in>set (take n s). isSpace c"
    using takeWhile_take_all [of n isSpace s] by simp
  with n(2) show ?thesis by simp
qed

lemma split_ink:
  assumes m: "\<forall>prev s v n. m prev s = Some (v, n) \<longrightarrow> 1 \<le> n \<and> (\<forall>c\<in>set (take n s). isSpace c)"
    and ink: "hasInk s"
  shows "\<exists>p\<in>set (split m s). hasInk p"
proof -
  have "filter (\<lambda>c. \<not> isSpace c) (concat (split m s)) = filter (\<lambda>c. \<not> isSpace c) s"
    unfolding split_def matches_def using split_keeps [OF m, of 0 s None] by simp
  moreover from ink have "filter (\<lambda>c. \<not> isSpace c) s \<noteq> []"
    by (auto simp: hasInk_def filter_empty_conv)
  ultimately have "filter (\<lambda>c. \<not> isSpace c) (concat (split m s)) \<noteq> []" by simp
  then show ?thesis
    by (auto simp: hasInk_def filter_empty_conv)
qed

lemma dotRun_keeps:
  assumes N: "1 \<le> N"
  shows "concat (hits (scanAll (dotRun N) prev k s)) = filter (\<lambda>c. \<not> isLT c) (drop k s)"
proof (induction s arbitrary: prev k)
  case Nil
  then show ?case by simp
next
  case (Cons c cs)
  show ?case
  proof (cases k)
    case (Suc j)
    with Cons.IH [of "Some c" j] show ?thesis by simp
  next
    case 0
    show ?thesis
    proof (cases "isLT c")
      case True
      then have "dotRun N prev (c # cs) = None" by (simp add: dotRun_def)
      with 0 True Cons.IH [of "Some c" 0] show ?thesis by simp
    next
      case False
      define n where "n = min N (length (takeWhile (\<lambda>c. \<not> isLT c) (c # cs)))"
      from False N have n1: "1 \<le> n" by (simp add: n_def)
      then obtain j where j: "n = Suc j" by (cases n) auto
      have run: "dotRun N prev (c # cs) = Some (take n (c # cs), n)"
        using n1 by (simp add: dotRun_def n_def Let_def)
      have "n \<le> length (takeWhile (\<lambda>c. \<not> isLT c) (c # cs))" by (simp add: n_def)
      then have "\<forall>x\<in>set (take n (c # cs)). \<not> isLT x" by (rule takeWhile_take_all)
      with j have tk: "\<forall>x\<in>set (take j cs). \<not> isLT x" by simp
      have "filter (\<lambda>c. \<not> isLT c) cs = filter (\<lambda>c. \<not> isLT c) (take j cs @ drop j cs)" by simp
      also have "\<dots> = take j cs @ filter (\<lambda>c. \<not> isLT c) (drop j cs)"
        using tk by (simp only: filter_append) (simp add: filter_id_conv)
      finally have "filter (\<lambda>c. \<not> isLT c) cs = take j cs @ filter (\<lambda>c. \<not> isLT c) (drop j cs)" .
      with 0 False run j Cons.IH [of "Some c" j] show ?thesis by simp
    qed
  qed
qed

lemma isLT_isSpace: "isLT c \<Longrightarrow> isSpace c"
  by (auto simp: isLT_def isSpace_def)

lemma dotRun_ink:
  assumes "1 \<le> N" "hasInk w"
  shows "\<exists>x\<in>set (matchOrEmpty (dotRun N) w). hasInk x"
proof -
  from assms(2) obtain c where c: "c \<in> set w" "\<not> isSpace c" by (auto simp: hasInk_def)
  then have "c \<in> set (filter (\<lambda>c. \<not> isLT c) w)" using isLT_isSpace by auto
  then have "c \<in> set (concat (matchOrEmpty (dotRun N) w))"
    unfolding matchOrEmpty_def matches_def using dotRun_keeps [OF assms(1), of None 0 w] by simp
  with c(2) show ?thesis by (auto simp: hasInk_def)
qed

section \<open>Invariants of the packing loops\<close>

lemma safetyPass_cap: "c \<in> set (safetyPass parts) \<Longrightarrow> len c \<le> MAX_TELEGRAM"
  by (auto simp: safetyPass_def len_def MAX_TELEGRAM_def SAFE_BUDGET_def
      dest!: matchOrEmpty_dotRun_length split: if_splits)

lemma safetyPass_nonempty:
  "\<forall>x\<in>set parts. x \<noteq> [] \<Longrightarrow> c \<in> set (safetyPass parts) \<Longrightarrow> c \<noteq> []"
  by (auto simp: safetyPass_def dest!: matchOrEmpty_dotRun_nonempty split: if_splits)

lemma pushIf_all: "\<forall>x\<in>set parts. P x \<Longrightarrow> (b \<noteq> [] \<Longrightarrow> P b) \<Longrightarrow> \<forall>x\<in>set (pushIf parts b). P x"
  by (auto simp: pushIf_def)

lemma wordLoop_all:
  assumes ne: "maxLen \<noteq> 0"
    and pieces: "\<forall>re w. newRegExpDot maxLen = Inr re \<longrightarrow> (\<forall>x\<in>set (matchOrEmpty re w). P x)"
    and buf: "\<forall>x. x \<noteq> [] \<longrightarrow> P x"
  shows "\<forall>x\<in>set parts. P x \<Longrightarrow>
     \<exists>parts' b. wordLoop maxLen ws (parts, wBuf) = Inr (parts', b) \<and> (\<forall>x\<in>set parts'. P x)"
proof (induction ws arbitrary: parts wBuf)
  case Nil
  then show ?case by simp
next
  case (Cons w ws)
  from ne obtain re where re: "newRegExpDot maxLen = Inr re"
    by (cases "1 \<le> maxLen"; cases "- (2 ^ 53) < maxLen") (simp_all add: newRegExpDot_def)
  have push: "\<forall>x\<in>set (pushIf parts wBuf). P x"
    using Cons.prems buf by (auto simp: pushIf_def)
  have hard: "\<forall>x\<in>set (pushIf parts wBuf @ matchOrEmpty re w). P x"
    using push pieces re by auto
  show ?case
    using Cons.IH [OF Cons.prems] Cons.IH [OF push] Cons.IH [OF hard] re
    by (simp add: Let_def)
qed

lemma sentenceLoop_all:
  assumes ne: "maxLen \<noteq> 0"
    and pieces: "\<forall>re w. newRegExpDot maxLen = Inr re \<longrightarrow> (\<forall>x\<in>set (matchOrEmpty re w). P x)"
    and buf: "\<forall>x. x \<noteq> [] \<longrightarrow> P x"
  shows "\<forall>x\<in>set parts. P x \<Longrightarrow>
     \<exists>parts' b. sentenceLoop maxLen ss (parts, sBuf) = Inr (parts', b) \<and> (\<forall>x\<in>set parts'. P x)"
proof (induction ss arbitrary: parts sBuf)
  case Nil
  then show ?case by simp
next
  case (Cons s ss)
  have push: "\<forall>x\<in>set (pushIf parts sBuf). P x"
    using Cons.prems buf by (auto simp: pushIf_def)
  obtain parts' wBuf where w: "wordLoop maxLen (split wordBreak s) (pushIf parts sBuf, []) = Inr (parts', wBuf)"
    and w': "\<forall>x\<in>set parts'. P x"
    using wordLoop_all [OF ne pieces buf push] by blast
  have push': "\<forall>x\<in>set (pushIf parts' wBuf). P x"
    using w' buf by (auto simp: pushIf_def)
  show ?case
    using Cons.IH [OF Cons.prems] Cons.IH [OF push] Cons.IH [OF push'] w
    by (simp add: Let_def)
qed

lemma paragraphLoop_all:
  assumes ne: "maxLen \<noteq> 0"
    and pieces: "\<forall>re w. newRegExpDot maxLen = Inr re \<longrightarrow> (\<forall>x\<in>set (matchOrEmpty re w). P x)"
    and buf: "\<forall>x. x \<noteq> [] \<longrightarrow> P x"
  shows "\<forall>x\<in>set parts. P x \<Longrightarrow>
     \<exists>parts' b. paragraphLoop maxLen ps (parts, buffer) = Inr (parts', b) \<and> (\<forall>x\<in>set parts'. P x)"
proof (induction ps arbitrary: parts buffer)
  case Nil
  then show ?case by simp
next
  case (Cons p ps)
  have push: "\<forall>x\<in>set (pushIf parts buffer). P x"
    using Cons.prems buf by (auto simp: pushIf_def)
  obtain parts' sBuf where s: "sentenceLoop maxLen (split sentenceBreak p) (pushIf parts buffer, []) = Inr (parts', sBuf)"
    and s': "\<forall>x\<in>set parts'. P x"
    using sentenceLoop_all [OF ne pieces buf push] by blast
  have push': "\<forall>x\<in>set (pushIf parts' sBuf). P x"
    using s' buf by (auto simp: pushIf_def)
  show ?case
    using Cons.IH [OF Cons.prems] Cons.IH [OF push] Cons.IH [OF push'] s
    by (simp add: Let_def)
qed

lemma keeps_Nil: "\<not> keeps maxLen []"
  by (simp add: keeps_def)

lemma keeps_ink: "hasInk x \<Longrightarrow> keeps maxLen x"
  using isLT_isSpace by (auto simp: keeps_def hasInk_def)

lemma keeps_candidate:
  assumes "keeps maxLen b \<or> keeps maxLen x" "len (candidateOf b sep x) \<le> maxLen"
  shows "keeps maxLen (candidateOf b sep x)"
proof (cases "b = []")
  case True
  with assms(1) show ?thesis by (simp add: candidateOf_def keeps_Nil)
next
  case False
  show ?thesis
  proof (cases "\<exists>c\<in>set (b @ sep @ x). \<not> isLT c")
    case True
    with False show ?thesis by (simp add: candidateOf_def keeps_def)
  next
    case no: False
    with assms(1) have "maxLen \<le> MAX_TELEGRAM" by (auto simp: keeps_def)
    with assms(2) False show ?thesis by (simp add: candidateOf_def keeps_def)
  qed
qed

lemma keeps_pieces:
  assumes "1 \<le> maxLen" "hasInk w"
  shows "\<exists>x\<in>set (matchOrEmpty (dotRun (nat maxLen)) w). keeps maxLen x"
proof -
  from assms(1) have "1 \<le> nat maxLen" by simp
  then obtain x where "x \<in> set (matchOrEmpty (dotRun (nat maxLen)) w)" "hasInk x"
    using dotRun_ink assms(2) by blast
  then show ?thesis using keeps_ink by blast
qed

lemma keeps_pushIf: "(\<exists>x\<in>set (pushIf parts b). keeps maxLen x) \<longleftrightarrow> (\<exists>x\<in>set parts. keeps maxLen x) \<or> keeps maxLen b"
  by (auto simp: pushIf_def keeps_Nil)

lemma keepSt_candidate:
  "keepSt maxLen (parts, b) \<or> keeps maxLen x \<Longrightarrow> len (candidateOf b sep x) \<le> maxLen
   \<Longrightarrow> keepSt maxLen (parts, candidateOf b sep x)"
  using keeps_candidate [of maxLen b x sep] by (auto simp: keepSt_def)

lemma keepSt_next: "keepSt maxLen (parts, b) \<or> keeps maxLen x \<Longrightarrow> keepSt maxLen (pushIf parts b, x)"
  using keeps_pushIf [of parts b maxLen] by (auto simp: keepSt_def)

lemma keepSt_flush: "keepSt maxLen (parts, b) \<Longrightarrow> keepSt maxLen (pushIf parts b, [])"
  using keeps_pushIf [of parts b maxLen] by (auto simp: keepSt_def)

lemma keepSt_append:
  "keepSt maxLen (parts, []) \<or> (\<exists>x\<in>set more. keeps maxLen x) \<Longrightarrow> keepSt maxLen (parts @ more, [])"
  by (auto simp: keepSt_def)

lemma wordLoop_keeps:
  assumes N: "1 \<le> maxLen"
  shows "keepSt maxLen (parts, wBuf) \<or> (\<exists>w\<in>set ws. hasInk w \<or> (len w \<le> maxLen \<and> keeps maxLen w)) \<Longrightarrow>
     wordLoop maxLen ws (parts, wBuf) = Inr st' \<Longrightarrow> keepSt maxLen st'"
proof (induction ws arbitrary: parts wBuf)
  case Nil
  then show ?case by simp
next
  case (Cons w ws)
  let ?rest = "\<exists>w\<in>set ws. hasInk w \<or> (len w \<le> maxLen \<and> keeps maxLen w)"
  have re: "newRegExpDot maxLen = Inr (dotRun (nat maxLen))"
    using N by (simp add: newRegExpDot_def)
  from Cons.prems(1) have pre: "keepSt maxLen (parts, wBuf) \<or> hasInk w \<or> (len w \<le> maxLen \<and> keeps maxLen w) \<or> ?rest"
    by auto
  show ?case
  proof (cases "len (candidateOf wBuf (js '' '') w) \<le> maxLen")
    case True
    with Cons.prems(2) have run: "wordLoop maxLen ws (parts, candidateOf wBuf (js '' '') w) = Inr st'"
      by (simp add: Let_def)
    from pre True have "keepSt maxLen (parts, candidateOf wBuf (js '' '') w) \<or> ?rest"
      using keepSt_candidate [of maxLen parts wBuf w "js '' ''"] keeps_ink [of w maxLen] by blast
    then show ?thesis using run by (rule Cons.IH)
  next
    case False
    show ?thesis
    proof (cases "len w \<le> maxLen")
      case True
      with False Cons.prems(2) have run: "wordLoop maxLen ws (pushIf parts wBuf, w) = Inr st'"
        by (simp add: Let_def)
      from pre have "keepSt maxLen (pushIf parts wBuf, w) \<or> ?rest"
        using keepSt_next [of maxLen parts wBuf w] keeps_ink [of w maxLen] by blast
      then show ?thesis using run by (rule Cons.IH)
    next
      case big: False
      with False Cons.prems(2) re
      have run: "wordLoop maxLen ws (pushIf parts wBuf @ matchOrEmpty (dotRun (nat maxLen)) w, []) = Inr st'"
        by (simp add: Let_def)
      have "hasInk w \<Longrightarrow> \<exists>x\<in>set (matchOrEmpty (dotRun (nat maxLen)) w). keeps maxLen x"
        using keeps_pieces [OF N] by simp
      with pre big have "keepSt maxLen (pushIf parts wBuf @ matchOrEmpty (dotRun (nat maxLen)) w, []) \<or> ?rest"
        using keepSt_flush [of maxLen parts wBuf]
          keepSt_append [of maxLen "pushIf parts wBuf" "matchOrEmpty (dotRun (nat maxLen)) w"]
        by blast
      then show ?thesis using run by (rule Cons.IH)
    qed
  qed
qed

lemma sentenceLoop_keeps:
  assumes N: "1 \<le> maxLen"
  shows "keepSt maxLen (parts, sBuf) \<or> (\<exists>s\<in>set ss. hasInk s \<or> (len s \<le> maxLen \<and> keeps maxLen s)) \<Longrightarrow>
     sentenceLoop maxLen ss (parts, sBuf) = Inr st' \<Longrightarrow> keepSt maxLen st'"
proof (induction ss arbitrary: parts sBuf)
  case Nil
  then show ?case by simp
next
  case (Cons s ss)
  let ?rest = "\<exists>s\<in>set ss. hasInk s \<or> (len s \<le> maxLen \<and> keeps maxLen s)"
  from Cons.prems(1) have pre: "keepSt maxLen (parts, sBuf) \<or> hasInk s \<or> (len s \<le> maxLen \<and> keeps maxLen s) \<or> ?rest"
    by auto
  show ?case
  proof (cases "len (candidateOf sBuf (js '' '') s) \<le> maxLen")
    case True
    with Cons.prems(2) have run: "sentenceLoop maxLen ss (parts, candidateOf sBuf (js '' '') s) = Inr st'"
      by (simp add: Let_def)
    from pre True have "keepSt maxLen (parts, candidateOf sBuf (js '' '') s) \<or> ?rest"
      using keepSt_candidate [of maxLen parts sBuf s "js '' ''"] keeps_ink [of s maxLen] by blast
    then show ?thesis using run by (rule Cons.IH)
  next
    case False
    show ?thesis
    proof (cases "len s \<le> maxLen")
      case True
      with False Cons.prems(2) have run: "sentenceLoop maxLen ss (pushIf parts sBuf, s) = Inr st'"
        by (simp add: Let_def)
      from pre have "keepSt maxLen (pushIf parts sBuf, s) \<or> ?rest"
        using keepSt_next [of maxLen parts sBuf s] keeps_ink [of s maxLen] by blast
      then show ?thesis using run by (rule Cons.IH)
    next
      case big: False
      with False Cons.prems(2) obtain parts' wBuf
        where inner: "wordLoop maxLen (split wordBreak s) (pushIf parts sBuf, []) = Inr (parts', wBuf)"
          and run: "sentenceLoop maxLen ss (pushIf parts' wBuf, []) = Inr st'"
        by (auto simp: Let_def split: sum.splits)
      have "hasInk s \<Longrightarrow> \<exists>w\<in>set (split wordBreak s). hasInk w"
        using split_ink [of wordBreak s] wordBreak_white by blast
      then have "keepSt maxLen (parts, sBuf) \<or> hasInk s \<Longrightarrow> keepSt maxLen (parts', wBuf)"
        using wordLoop_keeps [OF N _ inner] keepSt_flush [of maxLen parts sBuf] by blast
      with pre big have "keepSt maxLen (pushIf parts' wBuf, []) \<or> ?rest"
        using keepSt_flush [of maxLen parts' wBuf] by blast
      then show ?thesis using run by (rule Cons.IH)
    qed
  qed
qed

lemma paragraphLoop_keeps:
  assumes N: "1 \<le> maxLen"
  shows "keepSt maxLen (parts, buffer) \<or> (\<exists>p\<in>set ps. hasInk p \<or> (len p \<le> maxLen \<and> keeps maxLen p)) \<Longrightarrow>
     paragraphLoop maxLen ps (parts, buffer) = Inr st' \<Longrightarrow> keepSt maxLen st'"
proof (induction ps arbitrary: parts buffer)
  case Nil
  then show ?case by simp
next
  case (Cons p ps)
  let ?sep = "[0x0A, 0x0A] :: jsstring"
  let ?rest = "\<exists>p\<in>set ps. hasInk p \<or> (len p \<le> maxLen \<and> keeps maxLen p)"
  from Cons.prems(1) have pre: "keepSt maxLen (parts, buffer) \<or> hasInk p \<or> (len p \<le> maxLen \<and> keeps maxLen p) \<or> ?rest"
    by auto
  show ?case
  proof (cases "len (candidateOf buffer ?sep p) \<le> maxLen")
    case True
    with Cons.prems(2) have run: "paragraphLoop maxLen ps (parts, candidateOf buffer ?sep p) = Inr st'"
      by (simp add: Let_def)
    from pre True have "keepSt maxLen (parts, candidateOf buffer ?sep p) \<or> ?rest"
      using keepSt_candidate [of maxLen parts buffer p ?sep] keeps_ink [of p maxLen] by blast
    then show ?thesis using run by (rule Cons.IH)
  next
    case False
    show ?thesis
    proof (cases "len p \<le> maxLen")
      case True
      with False Cons.prems(2) have run: "paragraphLoop maxLen ps (pushIf parts buffer, p) = Inr st'"
        by (simp add: Let_def)
      from pre have "keepSt maxLen (pushIf parts buffer, p) \<or> ?rest"
        using keepSt_next [of maxLen parts buffer p] keeps_ink [of p maxLen] by blast
      then show ?thesis using run by (rule Cons.IH)
    next
      case big: False
      with False Cons.prems(2) obtain parts' sBuf
        where inner: "sentenceLoop maxLen (split sentenceBreak p) (pushIf parts buffer, []) = Inr (parts', sBuf)"
          and run: "paragraphLoop maxLen ps (pushIf parts' sBuf, []) = Inr st'"
        by (auto simp: Let_def split: sum.splits)
      have "hasInk p \<Longrightarrow> \<exists>s\<in>set (split sentenceBreak p). hasInk s"
        using split_ink [of sentenceBreak p] sentenceBreak_white by blast
      then have "keepSt maxLen (parts, buffer) \<or> hasInk p \<Longrightarrow> keepSt maxLen (parts', sBuf)"
        using sentenceLoop_keeps [OF N _ inner] keepSt_flush [of maxLen parts buffer] by blast
      with pre big have "keepSt maxLen (pushIf parts' sBuf, []) \<or> ?rest"
        using keepSt_flush [of maxLen parts' sBuf] by blast
      then show ?thesis using run by (rule Cons.IH)
    qed
  qed
qed

lemma concat_map_not_Nil: "x \<in> set xs \<Longrightarrow> f x \<noteq> [] \<Longrightarrow> concat (map f xs) \<noteq> []"
  by (induction xs) auto

lemma dotRun_some:
  assumes "1 \<le> N" "\<exists>c\<in>set w. \<not> isLT c"
  shows "matchOrEmpty (dotRun N) w \<noteq> []"
proof -
  from assms(2) have "filter (\<lambda>c. \<not> isLT c) w \<noteq> []" by (auto simp: filter_empty_conv)
  then have "concat (matchOrEmpty (dotRun N) w) \<noteq> []"
    unfolding matchOrEmpty_def matches_def using dotRun_keeps [OF assms(1), of None 0 w] by simp
  then show ?thesis by auto
qed

lemma safetyPass_keeps:
  assumes "\<exists>x\<in>set parts. keeps maxLen x"
  shows "safetyPass parts \<noteq> []"
proof -
  from assms obtain x where x: "x \<in> set parts" "keeps maxLen x" by blast
  have "(if len x \<le> MAX_TELEGRAM then [x] else matchOrEmpty (dotRun (nat SAFE_BUDGET)) x) \<noteq> []"
    using dotRun_some [of "nat SAFE_BUDGET" x] x(2) by (auto simp: SAFE_BUDGET_def keeps_def)
  with x(1) show ?thesis
    unfolding safetyPass_def by (rule concat_map_not_Nil)
qed

lemma scanAll_Ch: "Ch c \<in> set (scanAll m prev k s) \<Longrightarrow> c \<in> set s"
proof (induction s arbitrary: prev k)
  case Nil
  then show ?case by simp
next
  case (Cons a s)
  show ?case
  proof (cases k)
    case 0
    with Cons show ?thesis by (auto split: option.splits)
  next
    case (Suc j)
    with Cons show ?thesis by auto
  qed
qed

lemma pieces_Ch: "\<forall>p\<in>set (pieces xs). \<forall>x\<in>set p. Ch x \<in> set xs"
proof (induction xs rule: pieces.induct)
  case 1
  then show ?case by simp
next
  case (2 c xs)
  obtain p0 ps where ps: "pieces xs = p0 # ps"
    using pieces_not_Nil [of xs] by (cases "pieces xs") auto
  with 2 have "\<forall>x\<in>set p0. Ch x \<in> set xs" "\<forall>p\<in>set ps. \<forall>x\<in>set p. Ch x \<in> set xs" by simp_all
  with ps show ?case by auto
next
  case (3 v xs)
  then show ?case by auto
qed

lemma split_sub: "p \<in> set (split m s) \<Longrightarrow> set p \<subseteq> set s"
  unfolding split_def matches_def using pieces_Ch scanAll_Ch by fast

lemma wordBreak_Ch: "Ch c \<in> set (scanAll wordBreak prev k s) \<Longrightarrow> \<not> isSpace c"
proof (induction s arbitrary: prev k)
  case Nil
  then show ?case by simp
next
  case (Cons a s)
  show ?case
  proof (cases k)
    case 0
    with Cons show ?thesis
      by (cases "isSpace a") (auto simp: wordBreak_def Let_def split: option.splits if_splits)
  next
    case (Suc j)
    with Cons show ?thesis by auto
  qed
qed

lemma words_inkless:
  assumes "\<not> hasInk s" "w \<in> set (split wordBreak s)"
  shows "w = []"
proof (rule ccontr)
  assume "w \<noteq> []"
  then obtain c where c: "c \<in> set w" by (cases w) auto
  with assms(2) have ch: "Ch c \<in> set (scanAll wordBreak None 0 s)"
    unfolding split_def matches_def using pieces_Ch by blast
  then have "\<not> isSpace c" by (rule wordBreak_Ch)
  moreover from ch have "c \<in> set s" by (rule scanAll_Ch)
  ultimately show False using assms(1) by (auto simp: hasInk_def)
qed

lemma pieces_map_Ch: "pieces (map Ch s) = [s]"
  by (induction s) auto

lemma sentenceBreak_none:
  "\<forall>c\<in>set s. \<not> isSentenceEnd c \<Longrightarrow> (case prev of None \<Rightarrow> True | Some p \<Rightarrow> \<not> isSentenceEnd p)
   \<Longrightarrow> scanAll sentenceBreak prev 0 s = map Ch s"
  by (induction s arbitrary: prev) (auto simp: sentenceBreak_def split: option.splits)

lemma isSentenceEnd_ink: "isSentenceEnd c \<Longrightarrow> \<not> isSpace c"
  by (auto simp: isSentenceEnd_def isSpace_def)

lemma sentences_inkless: "\<not> hasInk p \<Longrightarrow> split sentenceBreak p = [p]"
proof -
  assume "\<not> hasInk p"
  then have "\<forall>c\<in>set p. \<not> isSentenceEnd c"
    using isSentenceEnd_ink by (auto simp: hasInk_def)
  then show ?thesis
    by (simp add: split_def matches_def sentenceBreak_none pieces_map_Ch)
qed

lemma wordLoop_empty_words:
  assumes "0 \<le> maxLen"
  shows "\<forall>w\<in>set ws. w = [] \<Longrightarrow> wordLoop maxLen ws (parts, []) = Inr (parts, [])"
  using assms by (induction ws) (simp_all add: candidateOf_def len_def)

lemma sentenceLoop_inkless:
  assumes "0 \<le> maxLen" "maxLen < len p" "\<not> hasInk p"
  shows "sentenceLoop maxLen [p] (parts, []) = Inr (parts, [])"
proof -
  have "wordLoop maxLen (split wordBreak p) (parts, []) = Inr (parts, [])"
    using assms(1) words_inkless [OF assms(3)] by (intro wordLoop_empty_words) auto
  with assms(2) show ?thesis by (simp add: candidateOf_def pushIf_def)
qed

lemma paragraphLoop_nothing:
  assumes "0 \<le> maxLen"
  shows "\<forall>p\<in>set ps. p = [] \<or> (maxLen < len p \<and> \<not> hasInk p)
    \<Longrightarrow> paragraphLoop maxLen ps (parts, []) = Inr (parts, [])"
proof (induction ps)
  case Nil
  then show ?case by simp
next
  case (Cons p ps)
  then have ih: "paragraphLoop maxLen ps (parts, []) = Inr (parts, [])" by simp
  show ?case
  proof (cases "p = []")
    case True
    with ih assms show ?thesis by (simp add: candidateOf_def len_def)
  next
    case False
    with Cons.prems have big: "maxLen < len p" and ink: "\<not> hasInk p" by auto
    have "sentenceLoop maxLen (split sentenceBreak p) (parts, []) = Inr (parts, [])"
      using sentenceLoop_inkless [OF assms big ink] sentences_inkless [OF ink] by simp
    with big ih show ?thesis by (simp add: candidateOf_def pushIf_def)
  qed
qed

section \<open>The segmenter: results\<close>

text \<open>
  Off the early return, every chunk is within the hard cap: the safety pass sees every part.
\<close>

lemma chunkForTelegram_split_path_cap:
  assumes "\<not> (text = [] \<or> len text \<le> maxLen)" "chunkForTelegram text maxLen = Inr r"
  shows "\<forall>c\<in>set r. len c \<le> MAX_TELEGRAM"
  using assms safetyPass_cap
  by (auto simp: chunkForTelegram_def split: sum.splits)

text \<open>
  C1, at the input of 4097 letters \<open>a\<close> with \<open>maxLen = 5000\<close>: the text fits \<open>maxLen\<close>,
  the early return hands it back whole and the final safety pass never sees it, so the
  one chunk returned is longer than \<open>MAX_TELEGRAM\<close>.
\<close>

theorem chunkForTelegram_early_return_over_cap:
  "chunkForTelegram (replicate 4097 0x61) 5000 = Inr [replicate 4097 0x61]
   \<and> MAX_TELEGRAM < len (replicate 4097 0x61)"
  by (simp add: chunkForTelegram_def len_def MAX_TELEGRAM_def)

text \<open>
  C4 as stated fails: three newlines with \<open>maxLen = 2\<close> split into two empty
  paragraphs, no buffer is ever pushed, and the sequence returned is empty. With a
  \<open>maxLen\<close> below 1 even a letter is lost: for \<^verbatim>\<open>a\<close> with \<open>maxLen = -1\<close> the hard
  slice looks for the literal text \<^verbatim>\<open>{1,-1}\<close> after a character, finds none, and the
  sequence returned is empty.
\<close>

theorem chunkForTelegram_newlines_empty:
  "chunkForTelegram [0x0A, 0x0A, 0x0A] 2 = Inr []
   \<and> chunkForTelegram (js ''a'') (- 1) = Inr []"
  by (simp add: segmenter_defs decimal.simps [of 1])

text \<open>
  C4, amended: the sequence returned by \<open>chunkForTelegram\<close> has at least one element
  for every text that is empty or no longer than \<open>maxLen\<close>, whatever \<open>maxLen\<close> is, and,
  when \<open>maxLen\<close> is at least 1, for every text that has a code unit other than white
  space or has a paragraph (a piece between runs of two or more newlines) that is no
  longer than \<open>maxLen\<close> and either holds a code unit other than a line terminator or,
  when \<open>maxLen\<close> is at most 4096, is not empty.
\<close>

theorem chunkForTelegram_some_chunk:
  assumes "text = [] \<or> len text \<le> maxLen
    \<or> (1 \<le> maxLen \<and> (hasInk text
          \<or> (\<exists>p\<in>set (split paragraphBreak text). len p \<le> maxLen
                \<and> ((\<exists>c\<in>set p. \<not> isLT c) \<or> (maxLen \<le> MAX_TELEGRAM \<and> p \<noteq> [])))))"
  shows "\<exists>r. chunkForTelegram text maxLen = Inr r \<and> r \<noteq> []"
proof (cases "text = [] \<or> len text \<le> maxLen")
  case True
  then show ?thesis by (simp add: chunkForTelegram_def)
next
  case False
  with assms have N: "1 \<le> maxLen"
    and some: "hasInk text \<or> (\<exists>p\<in>set (split paragraphBreak text). len p \<le> maxLen
                \<and> ((\<exists>c\<in>set p. \<not> isLT c) \<or> (maxLen \<le> MAX_TELEGRAM \<and> p \<noteq> [])))"
    by auto
  from N have ne: "maxLen \<noteq> 0" by simp
  obtain parts b where loop: "paragraphLoop maxLen (split paragraphBreak text) ([], []) = Inr (parts, b)"
    using paragraphLoop_all [OF ne, where P = "\<lambda>x. True" and parts = "[]"
        and ps = "split paragraphBreak text" and buffer = "[]"] by auto
  have "hasInk text \<Longrightarrow> \<exists>p\<in>set (split paragraphBreak text). hasInk p"
    using split_ink [of paragraphBreak "text"] paragraphBreak_white by blast
  moreover have "len p \<le> maxLen \<and> keeps maxLen p"
    if "len p \<le> maxLen \<and> ((\<exists>c\<in>set p. \<not> isLT c) \<or> (maxLen \<le> MAX_TELEGRAM \<and> p \<noteq> []))" for p
    using that by (auto simp: keeps_def)
  ultimately have "\<exists>p\<in>set (split paragraphBreak text). hasInk p \<or> (len p \<le> maxLen \<and> keeps maxLen p)"
    using some by blast
  then have "keepSt maxLen (parts, b)"
    using paragraphLoop_keeps [OF N _ loop] by blast
  then have "\<exists>x\<in>set (pushIf parts b). keeps maxLen x"
    using keeps_pushIf [of parts b maxLen] by (simp add: keepSt_def)
  then have "safetyPass (pushIf parts b) \<noteq> []" by (rule safetyPass_keeps)
  with loop False show ?thesis by (simp add: chunkForTelegram_def)
qed

theorem chunkForTelegram_some_chunk_witness:
  "(1::int) \<le> 1 \<and> [0x20] \<in> set (split paragraphBreak [0x20, 0x0A, 0x0A, 0x20]) \<and> len [0x20] \<le> 1
   \<and> \<not> isLT 0x20
   \<and> chunkForTelegram [0x20, 0x0A, 0x0A, 0x20] 1 = Inr [[0x20], [0x20]] \<and> [[0x20], [0x20 :: jschar]] \<noteq> []"
  using chunkForTelegram_some_chunk [of "[0x20, 0x0A, 0x0A, 0x20]" 1]
  by (simp add: segmenter_defs Let_def)

text \<open>
  For a \<open>maxLen\<close> from 1 to the cap the amended claim leaves out only inputs on which
  the sequence is empty: a text longer than \<open>maxLen\<close> that is white space only and whose
  paragraphs are each empty or longer than \<open>maxLen\<close> gives no chunk at all. (Above the
  cap the safety pass can also lose a part made of line terminators.)
\<close>

lemma chunkForTelegram_nothing:
  assumes "1 \<le> maxLen" "maxLen < len text" "\<not> hasInk text"
    "\<forall>p\<in>set (split paragraphBreak text). p = [] \<or> maxLen < len p"
  shows "chunkForTelegram text maxLen = Inr []"
proof -
  have "\<not> hasInk p" if "p \<in> set (split paragraphBreak text)" for p
    using split_sub [OF that] assms(3) by (auto simp: hasInk_def)
  with assms(4) have "\<forall>p\<in>set (split paragraphBreak text). p = [] \<or> (maxLen < len p \<and> \<not> hasInk p)"
    by blast
  then have "paragraphLoop maxLen (split paragraphBreak text) ([], []) = Inr ([], [])"
    using assms(1) by (intro paragraphLoop_nothing) simp
  moreover from assms(1,2) have "\<not> (text = [] \<or> len text \<le> maxLen)" by (auto simp: len_def)
  ultimately show ?thesis by (simp add: chunkForTelegram_def pushIf_def safetyPass_def)
qed

text \<open>
  C7: a text of length at most \<open>maxLen\<close> comes back as the one-element sequence holding
  it unchanged, and the empty text (the only falsy string) as the one-element sequence
  holding the empty string.
\<close>

theorem chunkForTelegram_fits: "(len text \<le> maxLen \<longrightarrow> chunkForTelegram text maxLen = Inr [text])
   \<and> chunkForTelegram [] maxLen = Inr [[]]"
  by (simp add: chunkForTelegram_def)

theorem chunkForTelegram_fits_witness:
  "len (js ''hello'') \<le> 10 \<and> chunkForTelegram (js ''hello'') 10 = Inr [js ''hello'']
   \<and> chunkForTelegram [] 10 = Inr [[]]"
  using chunkForTelegram_fits [of "js ''hello''" 10] by (simp add: len_def js_def)

text \<open>
  C10: for a non-empty text longer than \<open>maxLen\<close>, with \<open>maxLen\<close> at least 1,
  \<open>chunkForTelegram\<close> returns, and every chunk of the sequence is a non-empty string.
\<close>

theorem chunkForTelegram_chunks_nonempty:
  assumes "text \<noteq> []" "maxLen < len text" "1 \<le> maxLen"
  shows "\<exists>r. chunkForTelegram text maxLen = Inr r \<and> (\<forall>c\<in>set r. c \<noteq> [])"
proof -
  have ne: "maxLen \<noteq> 0" using assms by simp
  have hard: "\<forall>re w. newRegExpDot maxLen = Inr re \<longrightarrow> (\<forall>x\<in>set (matchOrEmpty re w). x \<noteq> [])"
    using assms(3) by (auto simp: newRegExpDot_def dest: matchOrEmpty_dotRun_nonempty)
  obtain parts b where loop: "paragraphLoop maxLen (split paragraphBreak text) ([], []) = Inr (parts, b)"
    and parts: "\<forall>x\<in>set parts. x \<noteq> []"
    using paragraphLoop_all [OF ne hard, where parts = "[]" and ps = "split paragraphBreak text" and buffer = "[]"] by auto
  have "\<forall>x\<in>set (pushIf parts b). x \<noteq> []"
    using parts by (auto simp: pushIf_def)
  then have "\<forall>c\<in>set (safetyPass (pushIf parts b)). c \<noteq> []"
    using safetyPass_nonempty by blast
  with loop assms show ?thesis by (simp add: chunkForTelegram_def)
qed

theorem chunkForTelegram_chunks_nonempty_witness:
  "js ''para1'' @ [0x0A, 0x0A] @ js ''para2'' \<noteq> []
   \<and> 10 < len (js ''para1'' @ [0x0A, 0x0A] @ js ''para2'') \<and> (1::int) \<le> 10
   \<and> chunkForTelegram (js ''para1'' @ [0x0A, 0x0A] @ js ''para2'') 10 = Inr [js ''para1'', js ''para2'']
   \<and> js ''para1'' \<noteq> [] \<and> js ''para2'' \<noteq> []"
  using chunkForTelegram_chunks_nonempty [of "js ''para1'' @ [0x0A, 0x0A] @ js ''para2''" 10]
  by (simp add: segmenter_defs)

section \<open>The shape of escaped texts\<close>

lemma scanAll_unit:
  assumes "\<And>prev s. m prev s = (case s of [] \<Rightarrow> None | c # cs \<Rightarrow> if P c then Some (c, 1) else None)"
  shows "scanAll m prev 0 s = map (\<lambda>c. if P c then Hit c else Ch c) s"
  by (induction s arbitrary: prev) (auto simp: assms)

lemma substitute_unit:
  "substitute f (map (\<lambda>c. if P c then Hit c else Ch c) s) = concat (map (\<lambda>c. if P c then f c else [c]) s)"
  by (induction s) auto

lemma escapeMarkdownV2_chars:
  "escapeMarkdownV2 t = concat (map (\<lambda>c. if isReserved c then [0x5C, c] else [c]) t)"
proof -
  have "scanAll reservedChar None 0 t = map (\<lambda>c. if isReserved c then Hit c else Ch c) t"
    by (rule scanAll_unit) (simp add: reservedChar_def)
  then show ?thesis
    by (simp add: escapeMarkdownV2_def replaceAll_def matches_def substitute_unit)
qed

lemma escapeForUrl_chars:
  "escapeForUrl u = concat (map (\<lambda>c. if c = 0x29 \<or> c = 0x5C then [0x5C, c] else [c]) u)"
proof -
  have "scanAll urlBreaker None 0 u = map (\<lambda>c. if c = 0x29 \<or> c = 0x5C then Hit c else Ch c) u"
    by (rule scanAll_unit) (simp add: urlBreaker_def)
  then show ?thesis
    by (simp add: escapeForUrl_def replaceAll_def matches_def substitute_unit)
qed

lemma indexOf_Some:
  "indexOf pat s = Some i \<Longrightarrow> s = take i s @ pat @ drop (i + length pat) s"
proof (induction s arbitrary: i)
  case Nil
  then show ?case by (simp split: if_splits)
next
  case (Cons c cs)
  show ?case
  proof (cases "take (length pat) (c # cs) = pat")
    case True
    with Cons.prems have "i = 0" by simp
    with True show ?thesis by (metis add_0 append_Nil append_take_drop_id take0)
  next
    case False
    with Cons.prems obtain j where j: "indexOf pat cs = Some j" "i = Suc j" by auto
    from Cons.IH [OF j(1)] j(2) show ?thesis by simp
  qed
qed

lemma decimal_digit: "k < 10 \<Longrightarrow> \<not> isReserved (0x30 + of_nat k)"
proof -
  assume "k < 10"
  then have "k = 0 \<or> k = 1 \<or> k = 2 \<or> k = 3 \<or> k = 4 \<or> k = 5 \<or> k = 6 \<or> k = 7 \<or> k = 8 \<or> k = 9"
    by arith
  then show ?thesis by (elim disjE) (simp_all add: isReserved_def js_def)
qed

lemma decimal_plain: "c \<in> set (decimal n) \<Longrightarrow> \<not> isReserved c"
proof (induction n arbitrary: c rule: decimal.induct)
  case (1 n)
  show ?case
  proof (cases "n < 10")
    case True
    with "1.prems" have "c = 0x30 + of_nat n" by (simp add: decimal.simps [of n])
    with True show ?thesis using decimal_digit by simp
  next
    case False
    with "1.prems" have "c \<in> set (decimal (n div 10)) \<or> c = 0x30 + of_nat (n mod 10)"
      by (auto simp: decimal.simps [of n])
    then show ?thesis
      using "1.IH" [OF False] decimal_digit [of "n mod 10"] by auto
  qed
qed

lemma placeholder_plain:
  "\<not> isReserved tag \<Longrightarrow> c \<in> set (placeholder tag i) \<Longrightarrow> \<not> isReserved c"
  using decimal_plain by (auto simp: placeholder_def isReserved_def js_def)

lemma tags_plain:
  "\<not> isReserved 0x4C" "\<not> isReserved 0x42" "\<not> isReserved 0x49" "\<not> isReserved 0x53"
  by (simp_all add: isReserved_def js_def)

section \<open>Placeholder tokens in the working text\<close>

lemma tagged_drop: "tagged T s \<Longrightarrow> tagged T (drop k s)"
  by (induction s arbitrary: k) (auto simp: drop_Cons split: nat.splits)

lemma tagged_append_free: "0x27EC \<notin> set p \<Longrightarrow> tagged T (p @ s) = tagged T s"
  by (induction p) auto

lemma tagged_free: "0x27EC \<notin> set s \<Longrightarrow> tagged T s"
  by (induction s) auto



lemma occurrences_other: "pat \<noteq> [] \<Longrightarrow> c \<noteq> hd pat \<Longrightarrow> occurrences pat (c # s) = occurrences pat s"
  by (cases pat) auto

lemma occurrences_append_free:
  "pat \<noteq> [] \<Longrightarrow> hd pat \<notin> set p \<Longrightarrow> occurrences pat (p @ s) = occurrences pat s"
  by (induction p) (auto simp: occurrences_other simp del: occurrences.simps)

lemma occurrences_drop: "occurrences pat (drop k s) \<le> occurrences pat s"
  by (induction s arbitrary: k) (auto simp: drop_Cons split: nat.splits intro: le_SucI)

lemma isDigit_not_close: "isDigit d \<Longrightarrow> d \<noteq> 0x27ED"
  by (auto simp: isDigit_def)

lemma isDigit_not_open: "isDigit d \<Longrightarrow> d \<noteq> 0x27EC"
  by (auto simp: isDigit_def)

lemma isDigit_plain: "isDigit d \<Longrightarrow> \<not> isReserved d"
proof -
  assume "isDigit d"
  then have "0x30 \<le> unat d" "unat d \<le> 0x39"
    by (simp_all add: isDigit_def word_le_nat_alt)
  moreover have "unat c \<notin> {0x30..0x39}" if "isReserved c" for c :: jschar
    using that by (auto simp: isReserved_def js_def)
  ultimately show ?thesis by fastforce
qed

lemma digits_prefix:
  "take (Suc (length x)) (y @ 0x27ED # z) = x @ [0x27ED] \<Longrightarrow> \<forall>d\<in>set x. isDigit d
   \<Longrightarrow> \<forall>d\<in>set y. isDigit d \<Longrightarrow> x = y"
proof (induction x arbitrary: y)
  case Nil
  then show ?case by (cases y) (auto dest: isDigit_not_close)
next
  case (Cons a x)
  show ?case
  proof (cases y)
    case Nil
    with Cons.prems show ?thesis by (auto dest: isDigit_not_close)
  next
    case (Cons b y')
    with Cons.prems Cons.IH [of y'] show ?thesis by auto
  qed
qed

lemma digit_char: "k < 10 \<Longrightarrow> isDigit (0x30 + of_nat k)"
proof -
  assume "k < 10"
  then have "k = 0 \<or> k = 1 \<or> k = 2 \<or> k = 3 \<or> k = 4 \<or> k = 5 \<or> k = 6 \<or> k = 7 \<or> k = 8 \<or> k = 9"
    by arith
  then show ?thesis by (elim disjE) (simp_all add: isDigit_def)
qed

lemma digit_char_inj:
  assumes "j < 10" "k < 10" "(0x30 :: jschar) + of_nat j = 0x30 + of_nat k"
  shows "j = k"
proof -
  from assms(3) have "(of_nat j :: jschar) = of_nat k" by simp
  then have "unat (of_nat j :: jschar) = unat (of_nat k :: jschar)" by simp
  moreover have "unat (of_nat j :: jschar) = j" using assms(1) by (simp add: unat_of_nat)
  moreover have "unat (of_nat k :: jschar) = k" using assms(2) by (simp add: unat_of_nat)
  ultimately show ?thesis by simp
qed

lemma decimal_digits: "d \<in> set (decimal n) \<Longrightarrow> isDigit d"
proof (induction n arbitrary: d rule: decimal.induct)
  case (1 n)
  show ?case
  proof (cases "n < 10")
    case True
    with "1.prems" have "d = 0x30 + of_nat n" by (simp add: decimal.simps [of n])
    with True show ?thesis using digit_char by simp
  next
    case False
    with "1.prems" have "d \<in> set (decimal (n div 10)) \<or> d = 0x30 + of_nat (n mod 10)"
      by (auto simp: decimal.simps [of n])
    then show ?thesis
      using "1.IH" [OF False] digit_char [of "n mod 10"] by auto
  qed
qed

lemma decimal_not_Nil: "decimal n \<noteq> []"
  by (simp add: decimal.simps [of n])

lemma decimal_inj: "decimal i = decimal j \<Longrightarrow> i = j"
proof (induction i arbitrary: j rule: decimal.induct)
  case (1 i)
  show ?case
  proof (cases "i < 10")
    case True
    show ?thesis
    proof (cases "j < 10")
      case j: True
      with True "1.prems" show ?thesis
        using digit_char_inj [of i j] by (simp add: decimal.simps [of i] decimal.simps [of j])
    next
      case False
      with True "1.prems" show ?thesis
        using decimal_not_Nil [of "j div 10"] by (simp add: decimal.simps [of i] decimal.simps [of j])
    qed
  next
    case False
    show ?thesis
    proof (cases "j < 10")
      case True
      with False "1.prems" show ?thesis
        using decimal_not_Nil [of "i div 10"] by (simp add: decimal.simps [of i] decimal.simps [of j])
    next
      case j: False
      with False "1.prems" have eq: "decimal (i div 10) = decimal (j div 10)"
        "(0x30 :: jschar) + of_nat (i mod 10) = 0x30 + of_nat (j mod 10)"
        by (simp_all add: decimal.simps [of i] decimal.simps [of j])
      from "1.IH" [OF False eq(1)] have "i div 10 = j div 10" .
      moreover have "i mod 10 = j mod 10"
        using digit_char_inj [OF _ _ eq(2)] by simp
      ultimately show ?thesis by (metis div_mult_mod_eq)
    qed
  qed
qed

lemma token_at:
  assumes "take (length (placeholder X i)) (0x27EC # tag # ds @ 0x27ED # rest) = placeholder X i"
    and "\<forall>d\<in>set ds. isDigit d"
  shows "X = tag \<and> decimal i = ds"
proof -
  from assms(1) have "X = tag" and "take (Suc (length (decimal i))) (ds @ 0x27ED # rest) = decimal i @ [0x27ED]"
    by (simp_all add: placeholder_def)
  then show ?thesis
    using digits_prefix [of "decimal i" ds rest] assms(2) decimal_digits by blast
qed

lemma placeholder_not_Nil: "placeholder X i \<noteq> []"
  by (simp add: placeholder_def)

lemma placeholder_hd: "hd (placeholder X i) = 0x27EC"
  by (simp add: placeholder_def)

lemma placeholder_tl_free: "X \<noteq> 0x27EC \<Longrightarrow> 0x27EC \<notin> set (tl (placeholder X i))"
  using decimal_digits [of "0x27EC" i] by (auto simp: placeholder_def isDigit_def)

lemma scanAll_plain_prefix:
  assumes M: "\<forall>prev s v n. m prev s = Some (v, n) \<longrightarrow> s \<noteq> [] \<and> isReserved (hd s)"
  shows "\<forall>c\<in>set p. \<not> isReserved c \<Longrightarrow>
    scanAll m prev 0 (p @ rest) = map Ch p @ scanAll m (if p = [] then prev else Some (last p)) 0 rest"
proof (induction p arbitrary: prev)
  case Nil
  then show ?case by simp
next
  case (Cons c p)
  have "m prev (c # p @ rest) = None"
  proof (cases "m prev (c # p @ rest)")
    case None
    then show ?thesis .
  next
    case (Some a)
    then obtain v n where "m prev (c # p @ rest) = Some (v, n)" by (cases a) auto
    with M have "isReserved c" by fastforce
    with Cons.prems show ?thesis by simp
  qed
  with Cons.IH [of "Some c"] Cons.prems show ?case by simp
qed

lemma replaceWith_Ch_prefix:
  "replaceWith cb (map Ch p @ xs) acc
     = (case replaceWith cb xs acc of Inl e \<Rightarrow> Inl e | Inr (t, acc') \<Rightarrow> Inr (p @ t, acc'))"
  by (induction p) (auto split: sum.splits prod.splits)

lemma placeholder_eq: "placeholder X i = 0x27EC # X # decimal i @ [0x27ED]"
  by (simp add: placeholder_def)

lemma token_here:
  assumes "take (length (placeholder X i)) (0x27EC # tag # ds @ 0x27ED # r1) = placeholder X i"
    and "\<forall>d\<in>set ds. isDigit d"
  shows "take (length (placeholder X i)) (0x27EC # tag # ds @ 0x27ED # r2) = placeholder X i"
proof -
  from token_at [OF assms] have "X = tag" "decimal i = ds" by simp_all
  then show ?thesis by (simp add: placeholder_eq)
qed

lemma token_same:
  assumes "take (length (placeholder X i)) (placeholder Y j @ rest) = placeholder X i"
  shows "X = Y \<and> i = j"
proof -
  have "placeholder Y j @ rest = 0x27EC # Y # decimal j @ 0x27ED # rest"
    by (simp add: placeholder_eq)
  with assms have "X = Y \<and> decimal i = decimal j"
    using token_at [of X i Y "decimal j" rest] decimal_digits by auto
  then show ?thesis using decimal_inj by blast
qed

lemma occurrences_token_free:
  "0x27EC \<notin> set p \<Longrightarrow> occurrences (placeholder X i) (p @ s) = occurrences (placeholder X i) s"
  by (rule occurrences_append_free) (simp_all add: placeholder_not_Nil placeholder_hd)

lemma occurrences_token_other:
  "c \<noteq> 0x27EC \<Longrightarrow> occurrences (placeholder X i) (c # s) = occurrences (placeholder X i) s"
  by (rule occurrences_other) (simp_all add: placeholder_not_Nil placeholder_hd)

lemma occurrences_after_token:
  assumes "Y \<noteq> 0x27EC"
  shows "occurrences (placeholder X i) (placeholder Y j @ s)
    = (if X = Y \<and> i = j then 1 else 0) + occurrences (placeholder X i) s"
proof -
  have free: "0x27EC \<notin> set (Y # decimal j @ [0x27ED])"
    using assms decimal_digits [of "0x27EC" j] by (auto simp: isDigit_def)
  have "occurrences (placeholder X i) (placeholder Y j @ s)
    = (if take (length (placeholder X i)) (placeholder Y j @ s) = placeholder X i then 1 else 0)
      + occurrences (placeholder X i) ((Y # decimal j @ [0x27ED]) @ s)"
    by (simp add: placeholder_eq)
  also have "occurrences (placeholder X i) ((Y # decimal j @ [0x27ED]) @ s) = occurrences (placeholder X i) s"
    using free by (rule occurrences_token_free)
  also have "take (length (placeholder X i)) (placeholder Y j @ s) = placeholder X i \<longleftrightarrow> X = Y \<and> i = j"
    using token_same [of X i Y j s] by auto
  finally show ?thesis .
qed

lemma tagged_token:
  assumes "Y \<in> T" "Y \<noteq> 0x27EC"
  shows "tagged T (placeholder Y j @ s) = tagged T s"
proof -
  have free: "0x27EC \<notin> set (Y # decimal j @ [0x27ED])"
    using assms decimal_digits [of "0x27EC" j] by (auto simp: isDigit_def)
  have "taggedAt T (Y # decimal j @ 0x27ED # s)"
    using assms(1) decimal_digits unfolding taggedAt_def by blast
  moreover have "tagged T ((Y # decimal j @ [0x27ED]) @ s) = tagged T s"
    using free by (rule tagged_append_free)
  ultimately show ?thesis by (simp add: placeholder_eq)
qed

lemma stage:
  assumes M: "\<forall>prev s v n. m prev s = Some (v, n) \<longrightarrow> s \<noteq> [] \<and> isReserved (hd s)"
    and CB: "tokenStep X Q G cb"
    and XT: "X \<notin> T" and XO: "X \<noteq> 0x27EC"
    and TP: "\<forall>t\<in>T. \<not> isReserved t"
  shows "tagged T (drop k s) \<Longrightarrow> \<forall>v\<in>set (hits (scanAll m prev k s)). Q v
    \<Longrightarrow> replaceWith cb (scanAll m prev k s) acc = Inr (out, acc')
    \<Longrightarrow> stageOK T X G (drop k s) acc out acc'"
proof (induction s arbitrary: prev k acc out acc')
  case Nil
  then show ?case by (simp add: stageOK_def)
next
  case (Cons c cs)
  show ?case
  proof (cases k)
    case (Suc j)
    with Cons.prems Cons.IH [of j "Some c" acc out acc'] show ?thesis by simp
  next
    case 0
    from Cons.prems(1) 0 have wfc: "c = 0x27EC \<longrightarrow> taggedAt T cs" and wfcs: "tagged T cs" by simp_all
    show ?thesis
    proof (cases "m prev (c # cs)")
      case None
      obtain out1 where r1: "replaceWith cb (scanAll m (Some c) 0 cs) acc = Inr (out1, acc')"
        and out: "out = c # out1"
        using Cons.prems(3) 0 None by (auto split: sum.splits prod.splits)
      have h1: "\<forall>v\<in>set (hits (scanAll m (Some c) 0 cs)). Q v"
        using Cons.prems(2) 0 None by simp
      have ih: "stageOK T X G cs acc out1 acc'"
        using Cons.IH [of 0 "Some c" acc out1 acc'] wfcs h1 r1 by simp
      show ?thesis
      proof (cases "c = 0x27EC")
        case False
        with ih out 0 show ?thesis
          by (simp add: stageOK_def occurrences_token_other del: occurrences.simps)
      next
        case True
        with wfc obtain tag ds rest where cs: "cs = tag # ds @ 0x27ED # rest"
          and tag: "tag \<in> T" and ds: "\<forall>d\<in>set ds. isDigit d"
          by (auto simp: taggedAt_def)
        let ?p = "tag # ds @ [0x27ED]"
        have plain: "\<forall>x\<in>set ?p. \<not> isReserved x"
          using tag TP ds isDigit_plain by (auto simp: isReserved_def js_def)
        have "scanAll m (Some c) 0 (?p @ rest) = map Ch ?p @ scanAll m (Some 0x27ED) 0 rest"
          using scanAll_plain_prefix [OF M plain, of "Some c" rest] by simp
        then have "replaceWith cb (scanAll m (Some c) 0 cs) acc
          = (case replaceWith cb (scanAll m (Some 0x27ED) 0 rest) acc of
               Inl e \<Rightarrow> Inl e | Inr (t, acc') \<Rightarrow> Inr (?p @ t, acc'))"
          using replaceWith_Ch_prefix [of cb ?p _ acc] cs by simp
        with r1 obtain out2 where out1: "out1 = tag # ds @ 0x27ED # out2"
          by (auto split: sum.splits prod.splits)
        have w: "tagged (insert X T) out"
          using ih out out1 tag ds True by (auto simp: stageOK_def taggedAt_def)
        have old: "occurrences (placeholder tg i) out \<le> occurrences (placeholder tg i) (c # cs)"
          if "tg \<noteq> X" for tg i
        proof -
          have "occurrences (placeholder tg i) out1 \<le> occurrences (placeholder tg i) cs"
            using ih that by (simp add: stageOK_def)
          moreover have "take (length (placeholder tg i)) (c # cs) = placeholder tg i"
            if "take (length (placeholder tg i)) (c # out1) = placeholder tg i"
            using that token_here [OF _ ds, of tg i tag out2 rest] True cs out1 by simp
          ultimately show ?thesis using out by auto
        qed
        have new: "occurrences (placeholder X i) out \<le> (if length acc \<le> i \<and> i < length acc' then 1 else 0)"
          for i
        proof -
          have "take (length (placeholder X i)) (c # out1) \<noteq> placeholder X i"
            using token_at [OF _ ds, of X i tag out2] True out1 tag XT by auto
          then have "occurrences (placeholder X i) out = occurrences (placeholder X i) out1"
            using out by simp
          then show ?thesis using ih by (simp add: stageOK_def)
        qed
        show ?thesis
          using w old new ih 0 by (simp add: stageOK_def del: occurrences.simps)
      qed
    next
      case (Some a)
      obtain v n where a: "a = (v, n)" by (cases a)
      with Some M have "isReserved c" by fastforce
      then have cno: "c \<noteq> 0x27EC" by (auto simp: isReserved_def js_def)
      obtain r acc1 where cb: "cb v acc = Inr (r, acc1)"
        using Cons.prems(3) 0 Some a by (auto split: sum.splits prod.splits)
      obtain out1 where r1: "replaceWith cb (scanAll m (Some c) (n - 1) cs) acc1 = Inr (out1, acc')"
        and out: "out = r @ out1"
        using Cons.prems(3) 0 Some a cb by (auto split: sum.splits prod.splits)
      have qv: "Q v" and h1: "\<forall>v\<in>set (hits (scanAll m (Some c) (n - 1) cs)). Q v"
        using Cons.prems(2) 0 Some a by simp_all
      have ih: "stageOK T X G (drop (n - 1) cs) acc1 out1 acc'"
        using Cons.IH [of "n - 1" "Some c" acc1 out1 acc'] wfcs h1 r1 tagged_drop by simp
      have base: "occurrences (placeholder tg i) (drop (n - 1) cs) \<le> occurrences (placeholder tg i) (c # cs)"
        for tg i
        using occurrences_drop [of "placeholder tg i" "n - 1" cs] cno
        by (simp add: occurrences_token_other del: occurrences.simps)
      from CB qv cb consider (token) md where "r = placeholder X (length acc)" "acc1 = acc @ [md]" "G md"
        | (plain) "0x27EC \<notin> set r" "acc1 = acc"
        unfolding tokenStep_def by blast
      then show ?thesis
      proof cases
        case plain
        have "occurrences (placeholder tg i) out = occurrences (placeholder tg i) out1" for tg i
          using out plain(1) by (simp add: occurrences_token_free)
        moreover have "tagged (insert X T) out = tagged (insert X T) out1"
          using out plain(1) by (simp add: tagged_append_free)
        moreover have "occurrences (placeholder tg i) out1 \<le> occurrences (placeholder tg i) (c # cs)"
          if "tg \<noteq> X" for tg i
        proof -
          have "occurrences (placeholder tg i) out1 \<le> occurrences (placeholder tg i) (drop (n - 1) cs)"
            using ih that by (simp add: stageOK_def)
          with base [of tg i] show ?thesis by simp
        qed
        ultimately show ?thesis
          using ih plain(2) 0 unfolding stageOK_def
          by (simp del: occurrences.simps)
      next
        case token
        have occ: "occurrences (placeholder tg i) out
          = (if tg = X \<and> i = length acc then 1 else 0) + occurrences (placeholder tg i) out1" for tg i
          using out token(1) occurrences_after_token [OF XO, of tg i "length acc" out1] by simp
        have w: "tagged (insert X T) out"
          using out token(1) tagged_token [of X "insert X T" "length acc" out1] XO ih
          by (simp add: stageOK_def)
        have len: "length acc \<le> length acc'" "length acc < length acc'"
          using ih token(2) by (simp_all add: stageOK_def)
        have grow: "\<forall>x\<in>set acc'. x \<in> set acc \<or> G x"
          using ih token(2,3) by (auto simp: stageOK_def)
        have old: "occurrences (placeholder tg i) out \<le> occurrences (placeholder tg i) (c # cs)"
          if "tg \<noteq> X" for tg i
        proof -
          have "occurrences (placeholder tg i) out1 \<le> occurrences (placeholder tg i) (drop (n - 1) cs)"
            using ih that by (simp add: stageOK_def)
          with base [of tg i] occ [of tg i] that show ?thesis by simp
        qed
        have new: "occurrences (placeholder X i) out \<le> (if length acc \<le> i \<and> i < length acc' then 1 else 0)"
          for i
        proof -
          have "occurrences (placeholder X i) out1 \<le> (if length acc1 \<le> i \<and> i < length acc' then 1 else 0)"
            using ih by (simp add: stageOK_def)
          with occ [of X i] token(2) len show ?thesis by (auto split: if_splits)
        qed
        show ?thesis
          using w len(1) grow old new 0 by (simp add: stageOK_def del: occurrences.simps)
      qed
    qed
  qed
qed

lemma stageOK_bound:
  assumes "stageOK T X G base acc out acc'"
    and "\<forall>tag i. occurrences (placeholder tag i) base \<le> 1"
  shows "\<forall>tag i. occurrences (placeholder tag i) out \<le> 1"
proof (intro allI)
  fix tag i
  show "occurrences (placeholder tag i) out \<le> 1"
  proof (cases "tag = X")
    case True
    have "occurrences (placeholder X i) out \<le> (if length acc \<le> i \<and> i < length acc' then 1 else 0)"
      using assms(1) by (simp add: stageOK_def)
    with True show ?thesis by (simp split: if_splits)
  next
    case False
    then have "occurrences (placeholder tag i) out \<le> occurrences (placeholder tag i) base"
      using assms(1) by (simp add: stageOK_def)
    with assms(2) show ?thesis by (meson order_trans)
  qed
qed

lemma occurrences_free: "0x27EC \<notin> set s \<Longrightarrow> occurrences (placeholder X i) s = 0"
  using occurrences_token_free [of s X i "[]"] by simp

lemma hits_free:
  assumes H: "\<forall>prev s v n. m prev s = Some (v, n) \<longrightarrow> 0x27EC \<notin> set s \<longrightarrow> Q v"
  shows "0x27EC \<notin> set s \<Longrightarrow> \<forall>v\<in>set (hits (scanAll m prev k s)). Q v"
proof (induction s arbitrary: prev k)
  case Nil
  then show ?case by simp
next
  case (Cons c cs)
  show ?case
  proof (cases k)
    case 0
    with Cons H show ?thesis
      by (auto split: option.splits)
  next
    case (Suc j)
    with Cons show ?thesis by simp
  qed
qed

lemma substitute_free:
  "0x27EC \<notin> set s \<Longrightarrow> \<forall>v\<in>set (hits (scanAll m prev k s)). 0x27EC \<notin> set (f v)
   \<Longrightarrow> 0x27EC \<notin> set (substitute f (scanAll m prev k s))"
proof (induction s arbitrary: prev k)
  case Nil
  then show ?case by simp
next
  case (Cons c cs)
  show ?case
  proof (cases k)
    case 0
    with Cons show ?thesis
      by (auto split: option.splits)
  next
    case (Suc j)
    with Cons show ?thesis by simp
  qed
qed

lemma replaceAll_free:
  assumes H: "\<forall>prev s v n. m prev s = Some (v, n) \<longrightarrow> 0x27EC \<notin> set s \<longrightarrow> 0x27EC \<notin> set (f v)"
    and s: "0x27EC \<notin> set s"
  shows "0x27EC \<notin> set (replaceAll m f s)"
  unfolding replaceAll_def matches_def
  using substitute_free [OF s, of m None 0 f] hits_free [OF H s, of None 0] by blast

lemma delimited_sub: "delimited d k prev s = Some (v, n) \<Longrightarrow> set v \<subseteq> set s"
  by (auto simp: delimited_def Let_def split: if_splits option.splits
      dest!: in_set_takeD in_set_dropD)

lemma heading_sub: "heading prev s = Some (v, n) \<Longrightarrow> set v \<subseteq> set s"
  by (auto simp: heading_def Let_def split: if_splits dest!: set_takeWhileD in_set_dropD)

lemma trim_sub: "set (trim s) \<subseteq> set s"
  by (auto simp: trim_def dest!: set_dropWhileD)

lemma linkSpan_sub: "linkSpan prev s = Some (v, n) \<Longrightarrow> set (fst v) \<subseteq> set s"
  by (cases s) (auto simp: linkSpan_def Let_def split: if_splits dest!: set_takeWhileD)

lemma normalizeCommonMd_free:
  assumes "0x27EC \<notin> set s"
  shows "0x27EC \<notin> set (normalizeCommonMd s)"
proof -
  have "0x27EC \<notin> set (replaceAll (delimited (js ''**'') 0) (\<lambda>inner. js ''*'' @ inner @ js ''*'') s)"
    using assms by (intro replaceAll_free) (auto simp: js_def dest: delimited_sub)
  then show ?thesis
    unfolding normalizeCommonMd_def
    by (rule replaceAll_free [rotated]) (auto simp: js_def dest: delimited_sub)
qed

lemma normalizeHeadings_free:
  assumes "0x27EC \<notin> set s"
  shows "0x27EC \<notin> set (normalizeHeadings s)"
  unfolding normalizeHeadings_def using assms trim_sub
  by (intro replaceAll_free) (auto simp: js_def dest!: heading_sub)

lemma escapeMarkdownV2_free: "0x27EC \<notin> set s \<Longrightarrow> 0x27EC \<notin> set (escapeMarkdownV2 s)"
  by (auto simp: escapeMarkdownV2_chars split: if_splits)

lemma linkSpan_reserved: "linkSpan prev s = Some (v, n) \<Longrightarrow> s \<noteq> [] \<and> isReserved (hd s)"
  by (cases s) (auto simp: linkSpan_def Let_def isReserved_def js_def split: if_splits)

lemma delimited_reserved:
  assumes "d \<noteq> []" "isReserved (hd d)" "delimited d k prev s = Some (v, n)"
  shows "s \<noteq> [] \<and> isReserved (hd s)"
proof -
  from assms(3) have "take (length d) s = d"
    by (auto simp: delimited_def split: if_splits)
  with assms(1,2) show ?thesis by (cases s; cases d) auto
qed

lemma reservedChar_reserved: "reservedChar prev s = Some (v, n) \<Longrightarrow> s \<noteq> [] \<and> isReserved (hd s) \<and> isReserved v"
  by (cases s) (auto simp: reservedChar_def split: if_splits)

lemma tokenStep_span:
  "tokenStep tag Q (\<lambda>md. \<exists>v. md = d @ escapeMarkdownV2 v @ d \<and> Q v) (spanCallback tag d)"
  unfolding tokenStep_def by (auto simp: spanCallback_def)

lemma tokenStep_escape: "tokenStep X isReserved G (\<lambda>v acc. Inr ([0x5C, v], acc))"
  unfolding tokenStep_def by (auto simp: isReserved_def js_def)

lemma replaceWith_substitute: "replaceWith (\<lambda>v acc. Inr (f v, acc)) xs acc = Inr (substitute f xs, acc)"
  by (induction f xs rule: substitute.induct) auto



lemma digits_split:
  "p @ c # s = ds @ 0x27ED # rest \<Longrightarrow> \<forall>d\<in>set ds. isDigit d \<Longrightarrow> \<not> isDigit c \<Longrightarrow> c \<noteq> 0x27ED
   \<Longrightarrow> \<exists>r. p = ds @ 0x27ED # r"
proof (induction ds arbitrary: p)
  case Nil
  then show ?case by (cases p) auto
next
  case (Cons d ds)
  show ?case
  proof (cases p)
    case Nil
    with Cons.prems show ?thesis by auto
  next
    case (Cons x p')
    with Cons.prems Cons.IH [of p'] show ?thesis by auto
  qed
qed

lemma taggedAt_prefix:
  assumes "taggedAt T (p @ c # s)" "c \<notin> T" "\<not> isDigit c" "c \<noteq> 0x27ED"
  shows "taggedAt T p"
proof -
  from assms(1) obtain tag ds rest where eq: "p @ c # s = tag # ds @ 0x27ED # rest"
    and tag: "tag \<in> T" and ds: "\<forall>d\<in>set ds. isDigit d"
    by (auto simp: taggedAt_def)
  show ?thesis
  proof (cases p)
    case Nil
    with eq tag assms(2) show ?thesis by simp
  next
    case (Cons x p')
    with eq have x: "x = tag" and "p' @ c # s = ds @ 0x27ED # rest" by simp_all
    then obtain r where "p' = ds @ 0x27ED # r"
      using digits_split [OF _ ds assms(3,4)] by blast
    with Cons x tag ds show ?thesis unfolding taggedAt_def by blast
  qed
qed

lemma tagged_prefix:
  "tagged T (p @ c # s) \<Longrightarrow> c \<notin> T \<Longrightarrow> \<not> isDigit c \<Longrightarrow> c \<noteq> 0x27ED \<Longrightarrow> tagged T p"
  by (induction p) (auto intro: taggedAt_prefix)

lemma delimited_split:
  assumes "delimited d k prev s = Some (v, n)"
  shows "\<exists>rest. drop (length d) s = v @ d @ rest"
proof -
  define t where "t = drop (length d) s"
  define u where "u = drop k t"
  from assms obtain j where j: "indexOf d u = Some j" and v: "v = take (k + j) t"
    by (auto simp: delimited_def Let_def t_def u_def split: if_splits option.splits)
  from indexOf_Some [OF j] have eq: "u = take j u @ d @ drop (j + length d) u" .
  have "take (k + j) t = take k t @ take j u"
    unfolding u_def by (simp add: take_add)
  moreover have "t = take k t @ u"
    unfolding u_def by simp
  ultimately have "t = take (k + j) t @ d @ drop (j + length d) u"
    using eq by (metis append.assoc)
  with v show ?thesis unfolding t_def by blast
qed

lemma delimited_tagged:
  assumes "delimited d k prev s = Some (v, n)" "tagged T s"
    and "d \<noteq> []" "hd d \<notin> T" "\<not> isDigit (hd d)" "hd d \<noteq> 0x27ED"
  shows "tagged T v"
proof -
  from delimited_split [OF assms(1)] obtain rest where "drop (length d) s = v @ d @ rest" by blast
  moreover have "tagged T (drop (length d) s)" using assms(2) by (rule tagged_drop)
  moreover obtain c d' where "d = c # d'" using assms(3) by (cases d) auto
  ultimately have "tagged T (v @ c # (d' @ rest))" "hd d = c" by simp_all
  with assms(4,5,6) show ?thesis using tagged_prefix by blast
qed

lemma hits_suffix:
  assumes H: "\<forall>prev s v n. m prev s = Some (v, n) \<longrightarrow> P s \<longrightarrow> Q v"
    and S: "\<forall>c s. P (c # s) \<longrightarrow> P s"
  shows "P s \<Longrightarrow> \<forall>v\<in>set (hits (scanAll m prev k s)). Q v"
proof (induction s arbitrary: prev k)
  case Nil
  then show ?case by simp
next
  case (Cons c cs)
  from Cons.prems S have cs: "P cs" by blast
  show ?case
  proof (cases k)
    case 0
    show ?thesis
    proof (cases "m prev (c # cs)")
      case None
      with 0 Cons.IH [OF cs] show ?thesis by simp
    next
      case (Some a)
      obtain v n where a: "a = (v, n)" by (cases a)
      with Some H Cons.prems have "Q v" by blast
      with 0 Some a Cons.IH [OF cs] show ?thesis by simp
    qed
  next
    case (Suc j)
    with Cons.IH [OF cs] show ?thesis by simp
  qed
qed

lemma escape_concat_plain:
  "\<forall>c\<in>set p. \<not> isReserved c \<Longrightarrow> concat (map (\<lambda>c. if isReserved c then [0x5C, c] else [c]) p) = p"
  by (induction p) auto

lemma escapeMarkdownV2_append: "escapeMarkdownV2 (x @ y) = escapeMarkdownV2 x @ escapeMarkdownV2 y"
  by (simp add: escapeMarkdownV2_chars)

lemma escapeMarkdownV2_plain: "\<forall>c\<in>set p. \<not> isReserved c \<Longrightarrow> escapeMarkdownV2 p = p"
  by (simp add: escapeMarkdownV2_chars escape_concat_plain)

lemma escapeMarkdownV2_Cons:
  "escapeMarkdownV2 (c # s) = (if isReserved c then [0x5C, c] else [c]) @ escapeMarkdownV2 s"
  by (simp add: escapeMarkdownV2_chars)

lemma taggedAt_escape:
  assumes "taggedAt T s" "\<forall>t\<in>T. \<not> isReserved t"
  shows "taggedAt T (escapeMarkdownV2 s)"
proof -
  from assms(1) obtain tag ds rest where s: "s = (tag # ds @ [0x27ED]) @ rest"
    and tag: "tag \<in> T" and ds: "\<forall>d\<in>set ds. isDigit d"
    by (auto simp: taggedAt_def)
  have "\<forall>c\<in>set (tag # ds @ [0x27ED]). \<not> isReserved c"
    using tag assms(2) ds isDigit_plain by (auto simp: isReserved_def js_def)
  then have "escapeMarkdownV2 s = (tag # ds @ [0x27ED]) @ escapeMarkdownV2 rest"
    unfolding s escapeMarkdownV2_append by (simp only: escapeMarkdownV2_plain)
  then have "escapeMarkdownV2 s = tag # ds @ 0x27ED # escapeMarkdownV2 rest" by simp
  with tag ds show ?thesis unfolding taggedAt_def by blast
qed

lemma escapeMarkdownV2_tagged:
  assumes "\<forall>t\<in>T. \<not> isReserved t"
  shows "tagged T s \<Longrightarrow> tagged T (escapeMarkdownV2 s)"
proof (induction s)
  case Nil
  then show ?case by (simp add: escapeMarkdownV2_chars)
next
  case (Cons c s)
  then have ih: "tagged T (escapeMarkdownV2 s)" by simp
  show ?case
  proof (cases "isReserved c")
    case True
    then have "c \<noteq> 0x27EC" by (auto simp: isReserved_def js_def)
    with True ih show ?thesis by (simp add: escapeMarkdownV2_Cons)
  next
    case False
    with Cons.prems ih taggedAt_escape [OF _ assms, of s] show ?thesis
      by (simp add: escapeMarkdownV2_Cons)
  qed
qed



lemma getSubstitution_plain: "patternFree tmpl \<Longrightarrow> getSubstitution m p q tmpl = tmpl"
  by (induction m p q tmpl rule: getSubstitution.induct) auto

lemma replaceFirst_plain:
  "patternFree md \<Longrightarrow> replaceFirst pat md text
     = (case indexOf pat text of None \<Rightarrow> text
        | Some i \<Rightarrow> take i text @ md @ drop (i + length pat) text)"
  by (simp add: replaceFirst_def Let_def getSubstitution_plain split: option.splits)



section \<open>Spans in the restored text\<close>

lemma flatRun_append:
  "flatRun m (x @ y) = (case flatRun m x of None \<Rightarrow> None | Some m' \<Rightarrow> flatRun m' y)"
  by (induction x arbitrary: m) (auto split: option.splits)

lemma guardRun_append:
  "guardRun hot st (x @ y) = (case guardRun hot st x of None \<Rightarrow> None | Some st' \<Rightarrow> guardRun hot st' y)"
  by (induction x arbitrary: st) (auto split: option.splits)

lemma guardRun_flat: "guardRun hot (m, opened) s = Some (m', opened') \<Longrightarrow> flatRun m s = Some m'"
proof (induction s arbitrary: m opened)
  case Nil
  then show ?case by simp
next
  case (Cons c cs)
  then obtain m1 o1 where "guardStep hot (m, opened) c = Some (m1, o1)"
    and r: "guardRun hot (m1, o1) cs = Some (m', opened')"
    by (auto split: option.splits)
  then have "flatStep m c = Some m1" by (auto split: if_splits option.splits)
  with Cons.IH [OF r] show ?case by simp
qed

lemma guardRun_mono:
  assumes "\<forall>c. cool c \<longrightarrow> hot c"
  shows "guardRun hot st s = Some st' \<Longrightarrow> guardRun cool st s = Some st'"
proof (induction s arbitrary: st)
  case Nil
  then show ?case by simp
next
  case (Cons c cs)
  obtain m opened where st: "st = (m, opened)" by (cases st)
  from Cons.prems st obtain st1 where s1: "guardStep hot (m, opened) c = Some st1"
    and r: "guardRun hot st1 cs = Some st'"
    by (auto split: option.splits)
  from s1 assms have "guardStep cool (m, opened) c = Some st1"
    by (auto split: if_splits option.splits)
  with Cons.IH [OF r] st show ?case by simp
qed

lemma guardRun_flag:
  "guardRun hot (m, opened) s = Some (m', opened') \<Longrightarrow> (opened \<longrightarrow> m \<noteq> Top) \<Longrightarrow> (opened' \<longrightarrow> m' \<noteq> Top)"
proof (induction s arbitrary: m opened)
  case Nil
  then show ?case by simp
next
  case (Cons c cs)
  then obtain m1 o1 where s1: "guardStep hot (m, opened) c = Some (m1, o1)"
    and r: "guardRun hot (m1, o1) cs = Some (m', opened')"
    by (auto split: option.splits)
  from s1 have "o1 \<longrightarrow> m1 \<noteq> Top" by (auto split: if_splits option.splits)
  with Cons.IH [OF r] show ?case by simp
qed

lemma plain_chars:
  assumes "\<not> isReserved c"
  shows "c \<noteq> 0x5C" "c \<noteq> 0x2A" "c \<noteq> 0x5F" "c \<noteq> 0x7C" "c \<noteq> 0x5B" "c \<noteq> 0x5D"
  using assms by (auto simp: isReserved_def js_def)

lemma plain_closer: "\<not> isReserved c \<Longrightarrow> c \<noteq> closer sp"
  by (cases sp) (auto simp: isReserved_def js_def)

lemma open_plain: "\<not> isReserved 0x27EC"
  by (simp add: isReserved_def js_def)

lemma flatStep_Top_plain: "\<not> isReserved c \<Longrightarrow> flatStep Top c = Some Top"
  using plain_chars [of c] by simp

lemma flatStep_In_plain: "\<not> isReserved c \<Longrightarrow> flatStep (In sp) c = Some (In sp)"
  using plain_chars [of c] plain_closer [of c sp] by simp

lemma flatStep_Opened:
  "c = 0x5C \<or> \<not> isReserved c \<Longrightarrow> flatStep (Opened sp) c = flatStep (In sp) c"
  using plain_closer [of c sp] by (auto simp: isReserved_def)

lemma escape_hd:
  "escapeMarkdownV2 (c # v) = x # w \<Longrightarrow> x = 0x5C \<or> \<not> isReserved x"
  by (auto simp: escapeMarkdownV2_Cons split: if_splits)

lemma flatRun_Opened:
  "flatRun (Opened sp) (escapeMarkdownV2 (c # v)) = flatRun (In sp) (escapeMarkdownV2 (c # v))"
proof (cases "escapeMarkdownV2 (c # v)")
  case Nil
  then show ?thesis by (simp add: escapeMarkdownV2_Cons split: if_splits)
next
  case (Cons x w)
  then have "flatStep (Opened sp) x = flatStep (In sp) x"
    using escape_hd flatStep_Opened by blast
  with Cons show ?thesis by simp
qed

lemma guardRun_Opened:
  "guardRun hot (Opened sp, opened) (escapeMarkdownV2 (c # v))
     = guardRun hot (In sp, opened) (escapeMarkdownV2 (c # v))"
proof (cases "escapeMarkdownV2 (c # v)")
  case Nil
  then show ?thesis by (simp add: escapeMarkdownV2_Cons split: if_splits)
next
  case (Cons x w)
  then have "flatStep (Opened sp) x = flatStep (In sp) x"
    using escape_hd flatStep_Opened by blast
  with Cons show ?thesis by (simp del: flatStep.simps)
qed

lemma guardStep_Top_plain: "\<not> isReserved c \<Longrightarrow> guardStep hot (Top, False) c = Some (Top, False)"
  by (simp add: flatStep_Top_plain del: flatStep.simps)

lemma guardRun_Top_plain: "\<forall>c\<in>set s. \<not> isReserved c \<Longrightarrow> guardRun hot (Top, False) s = Some (Top, False)"
  by (induction s) (simp_all add: guardStep_Top_plain del: guardStep.simps)

lemma guardStep_Top_escape:
  "isReserved c \<Longrightarrow> guardRun hot (Top, False) (0x5C # c # s) = guardRun hot (Top, False) s"
  using open_plain by auto

lemma guardRun_escape_top: "guardRun hot (Top, False) (escapeMarkdownV2 t) = Some (Top, False)"
proof (induction t)
  case Nil
  then show ?case by (simp add: escapeMarkdownV2_chars)
next
  case (Cons c t)
  show ?case
  proof (cases "isReserved c")
    case True
    with Cons show ?thesis
      by (simp add: escapeMarkdownV2_Cons guardStep_Top_escape del: guardRun.simps guardStep.simps)
  next
    case False
    with Cons show ?thesis
      by (simp add: escapeMarkdownV2_Cons guardStep_Top_plain del: guardStep.simps)
  qed
qed

lemma guardStep_In_escape:
  "isReserved c \<Longrightarrow> guardRun hot (In sp, False) (0x5C # c # s) = guardRun hot (In sp, False) s"
  using open_plain by (cases "c = 0x27EC") auto

lemma guardStep_In_plain:
  "\<not> isReserved c \<Longrightarrow> c \<noteq> 0x27EC \<Longrightarrow> guardStep hot (In sp, opened) c = (if opened \<and> hot c then None else Some (In sp, False))"
  by (simp add: flatStep_In_plain del: flatStep.simps)

lemma guardStep_In_open: "guardStep hot (In sp, False) 0x27EC = Some (In sp, True)"
  by (simp add: flatStep_In_plain open_plain del: flatStep.simps)

lemma guardRun_escape_in:
  assumes T: "\<forall>t\<in>T. \<not> hot t \<and> \<not> isReserved t \<and> t \<noteq> 0x27EC"
  shows "tagged T v \<Longrightarrow> guardRun hot (In sp, False) (escapeMarkdownV2 v) = Some (In sp, False)"
proof (induction v)
  case Nil
  then show ?case by (simp add: escapeMarkdownV2_chars)
next
  case (Cons c v)
  then have ih: "guardRun hot (In sp, False) (escapeMarkdownV2 v) = Some (In sp, False)" by simp
  show ?case
  proof (cases "isReserved c")
    case True
    with ih show ?thesis
      by (simp add: escapeMarkdownV2_Cons guardStep_In_escape del: guardRun.simps guardStep.simps)
  next
    case False
    show ?thesis
    proof (cases "c = 0x27EC")
      case no: False
      with False ih show ?thesis
        by (simp add: escapeMarkdownV2_Cons guardStep_In_plain del: guardStep.simps)
    next
      case True
      with Cons.prems obtain tag w where v: "v = tag # w" and tag: "tag \<in> T"
        by (auto simp: taggedAt_def)
      from tag T have tp: "\<not> hot tag" "\<not> isReserved tag" "tag \<noteq> 0x27EC" by blast+
      from ih v tp have "guardRun hot (In sp, False) (escapeMarkdownV2 w) = Some (In sp, False)"
        by (simp add: escapeMarkdownV2_Cons guardStep_In_plain del: guardStep.simps)
      with True False v tp show ?thesis
        by (simp add: escapeMarkdownV2_Cons guardStep_In_plain guardStep_In_open del: guardStep.simps)
    qed
  qed
qed

lemma guardRun_escape_opened:
  assumes T: "\<forall>t\<in>T. \<not> hot t \<and> \<not> isReserved t \<and> t \<noteq> 0x27EC" and v: "tagged T v" "v \<noteq> []"
  shows "guardRun hot (Opened sp, False) (escapeMarkdownV2 v) = Some (In sp, False)"
proof -
  from v(2) obtain c w where "v = c # w" by (cases v) auto
  then show ?thesis
    using guardRun_Opened [of hot sp False c w] guardRun_escape_in [OF T v(1), of sp] by simp
qed

lemma guardRun_span:
  assumes T: "\<forall>t\<in>T. \<not> hot t \<and> \<not> isReserved t \<and> t \<noteq> 0x27EC" and v: "tagged T v" "v \<noteq> []"
  shows "guardRun hot (Top, False) (js ''*'' @ escapeMarkdownV2 v @ js ''*'') = Some (Top, False)"
    and "guardRun hot (Top, False) (js ''_'' @ escapeMarkdownV2 v @ js ''_'') = Some (Top, False)"
    and "guardRun hot (Top, False) (js ''||'' @ escapeMarkdownV2 v @ js ''||'') = Some (Top, False)"
  using guardRun_escape_opened [OF T v, of Bold] guardRun_escape_opened [OF T v, of Italic]
    guardRun_escape_opened [OF T v, of Spoiler]
  by (simp_all add: js_def guardRun_append)

lemma guardRun_free:
  "0x27EC \<notin> set s \<Longrightarrow> guardRun hot (m, False) s = map_option (\<lambda>m'. (m', False)) (flatRun m s)"
  by (induction s arbitrary: m) (auto split: option.splits)

lemma flatRun_escape_in: "flatRun (In sp) (escapeMarkdownV2 v) = Some (In sp)"
proof (induction v)
  case Nil
  then show ?case by (simp add: escapeMarkdownV2_chars)
next
  case (Cons c v)
  then show ?case
    by (cases "isReserved c") (simp_all add: escapeMarkdownV2_Cons flatStep_In_plain del: flatStep.simps, simp)
qed

lemma flatRun_escape_opened: "v \<noteq> [] \<Longrightarrow> flatRun (Opened sp) (escapeMarkdownV2 v) = Some (In sp)"
  using flatRun_Opened [of sp "hd v" "tl v"] flatRun_escape_in [of sp v] by simp

lemma flatRun_escapeForUrl: "flatRun Url (escapeForUrl u) = Some Url"
  unfolding escapeForUrl_chars by (induction u) auto

lemma flatRun_escapeForUrl_opened: "u \<noteq> [] \<Longrightarrow> flatRun UrlOpened (escapeForUrl u) = Some Url"
proof -
  assume "u \<noteq> []"
  then obtain c w where u: "u = c # w" by (cases u) auto
  have "flatRun Url (escapeForUrl w) = Some Url" by (rule flatRun_escapeForUrl)
  then show ?thesis
    unfolding u escapeForUrl_chars by auto
qed

lemma flat_link:
  "label \<noteq> [] \<Longrightarrow> u \<noteq> []
   \<Longrightarrow> flatRun Top (js ''['' @ escapeMarkdownV2 label @ js ''](''  @ escapeForUrl u @ js '')'') = Some Top"
  using flatRun_escape_opened [of label Label] flatRun_escapeForUrl_opened [of u]
  by (simp add: js_def flatRun_append)

lemma flatStep_open_Top: "flatStep m 0x27EC = Some Top \<Longrightarrow> m = Top"
  using open_plain
  by (cases m) (auto simp: isReserved_def js_def split: if_splits span.splits elim: closed.elims)

lemma guardRun_token:
  assumes run: "guardRun hot (Top, False) (pre @ placeholder X i @ post) = Some (Top, False)"
    and X: "hot X" "\<not> isReserved X"
  shows "guardRun hot (Top, False) pre = Some (Top, False) \<and> guardRun hot (Top, False) post = Some (Top, False)"
proof -
  from run obtain m1 o1 where pre: "guardRun hot (Top, False) pre = Some (m1, o1)"
    and rest: "guardRun hot (m1, o1) (placeholder X i @ post) = Some (Top, False)"
    by (auto simp: guardRun_append split: option.splits)
  from guardRun_flag [OF pre] have flag: "o1 \<longrightarrow> m1 \<noteq> Top" by simp
  have tok: "placeholder X i @ post = 0x27EC # X # (decimal i @ 0x27ED # post)"
    by (simp add: placeholder_def)
  from rest obtain m2 o2 st3 where s1: "guardStep hot (m1, o1) 0x27EC = Some (m2, o2)"
    and s2: "guardStep hot (m2, o2) X = Some st3"
    unfolding tok by (auto split: option.splits)
  from s2 X(1) have "\<not> o2" by (auto split: if_splits)
  with s1 have "flatStep m1 0x27EC = Some Top"
    by (auto split: if_splits option.splits)
  then have "m1 = Top" by (rule flatStep_open_Top)
  with flag pre have p: "guardRun hot (Top, False) pre = Some (Top, False)" by simp
  have "guardRun hot (Top, False) (placeholder X i) = Some (Top, False)"
    using placeholder_plain [OF X(2)] by (intro guardRun_Top_plain) blast
  with run p have "guardRun hot (Top, False) post = Some (Top, False)"
    by (simp add: guardRun_append)
  with p show ?thesis by simp
qed

lemma replaceFirst_guard:
  assumes tx: "guardRun hot (Top, False) text = Some (Top, False)"
    and md: "guardRun hot (Top, False) md = Some (Top, False)" "patternFree md"
    and X: "hot X" "\<not> isReserved X"
  shows "guardRun hot (Top, False) (replaceFirst (placeholder X i) md text) = Some (Top, False)"
proof (cases "indexOf (placeholder X i) text")
  case None
  with tx md(2) show ?thesis by (simp add: replaceFirst_plain)
next
  case (Some k)
  let ?pre = "take k text"
  let ?post = "drop (k + length (placeholder X i)) text"
  have "text = ?pre @ placeholder X i @ ?post" using Some by (rule indexOf_Some)
  with tx have "guardRun hot (Top, False) (?pre @ placeholder X i @ ?post) = Some (Top, False)" by simp
  from guardRun_token [OF this X]
  have "guardRun hot (Top, False) ?pre = Some (Top, False)" "guardRun hot (Top, False) ?post = Some (Top, False)"
    by simp_all
  with md Some show ?thesis by (simp add: replaceFirst_plain guardRun_append)
qed

lemma restore_guard:
  assumes X: "hot X" "\<not> isReserved X"
  shows "\<forall>md\<in>set mds. guardRun hot (Top, False) md = Some (Top, False) \<and> patternFree md
    \<Longrightarrow> guardRun hot (Top, False) text = Some (Top, False)
    \<Longrightarrow> guardRun hot (Top, False) (restore X i mds text) = Some (Top, False)"
proof (induction mds arbitrary: i "text")
  case Nil
  then show ?case by simp
next
  case (Cons md mds)
  have "guardRun hot (Top, False) (replaceFirst (placeholder X i) md text) = Some (Top, False)"
    using Cons.prems X by (intro replaceFirst_guard) simp_all
  then show ?case using Cons.IH Cons.prems(1) by simp
qed

section \<open>The escaper returns, and what the extraction stores\<close>

lemma normalizeAndValidateUrl_returns: "\<exists>r. normalizeAndValidateUrl URL url = Inr r"
  by (simp add: normalizeAndValidateUrl_def Let_def split: sum.splits)

lemma linkCallback_returns: "\<exists>p. linkCallback URL m links = Inr p"
proof -
  obtain label url where m: "m = (label, url)" by (cases m)
  obtain r where "normalizeAndValidateUrl URL url = Inr r"
    using normalizeAndValidateUrl_returns by blast
  with m show ?thesis by (cases r) (simp_all add: linkCallback_def)
qed

lemma replaceWith_returns:
  assumes "\<forall>v acc. \<exists>p. cb v acc = Inr p"
  shows "\<exists>p. replaceWith cb xs acc = Inr p"
proof (induction xs arbitrary: acc)
  case Nil
  then show ?case by simp
next
  case (Cons x xs)
  show ?case
  proof (cases x)
    case (Ch c)
    obtain p where "replaceWith cb xs acc = Inr p" using Cons.IH by blast
    with Ch show ?thesis by (cases p) simp
  next
    case (Hit v)
    obtain r acc1 where c: "cb v acc = Inr (r, acc1)" using assms by (metis surj_pair)
    obtain p where "replaceWith cb xs acc1 = Inr p" using Cons.IH by blast
    with Hit c show ?thesis by (cases p) simp
  qed
qed

lemma extractSpans_returns: "\<exists>r. extractSpans URL inputText = Inr r"
proof -
  define text0 where "text0 = normalizeHeadings (normalizeCommonMd inputText)"
  obtain text1 links where s1: "replaceWith (linkCallback URL) (matches linkSpan text0) [] = Inr (text1, links)"
    using replaceWith_returns [of "linkCallback URL"] linkCallback_returns by (metis surj_pair)
  have span: "\<forall>v acc. \<exists>p. spanCallback tag d v acc = Inr p" for tag d
    by (simp add: spanCallback_def)
  obtain text2 bolds where s2:
    "replaceWith (spanCallback 0x42 (js ''*'')) (matches (delimited (js ''*'') 1) text1) [] = Inr (text2, bolds)"
    using replaceWith_returns [OF span] by (metis surj_pair)
  obtain text3 italics where s3:
    "replaceWith (spanCallback 0x49 (js ''_'')) (matches (delimited (js ''_'') 1) text2) [] = Inr (text3, italics)"
    using replaceWith_returns [OF span] by (metis surj_pair)
  obtain text4 spoilers where s4:
    "replaceWith (spanCallback 0x53 (js ''||'')) (matches (delimited (js ''||'') 1) text3) [] = Inr (text4, spoilers)"
    using replaceWith_returns [OF span] by (metis surj_pair)
  show ?thesis
    using s1 s2 s3 s4 by (simp add: extractSpans_def text0_def Let_def)
qed

lemma processMarkdownV2Safe_returns: "\<exists>r. processMarkdownV2Safe URL inputText = Inr r"
proof -
  obtain r where "extractSpans URL inputText = Inr r" using extractSpans_returns by blast
  then show ?thesis by (cases r) (simp add: processMarkdownV2Safe_def)
qed

lemma linkSpan_label: "linkSpan prev s = Some (v, n) \<Longrightarrow> fst v \<noteq> []"
  by (cases s) (auto simp: linkSpan_def Let_def split: if_splits)

lemma delimited_nonempty:
  assumes "delimited d (Suc k) prev s = Some (v, n)" "d \<noteq> []"
  shows "v \<noteq> []"
proof -
  from assms(1) obtain j where v: "v = take (Suc k + j) (drop (length d) s)"
    by (auto simp: delimited_def Let_def split: if_splits option.splits)
  from delimited_split [OF assms(1)] obtain rest where "drop (length d) s = v @ d @ rest" by blast
  with assms(2) have "drop (length d) s \<noteq> []" by auto
  with v show ?thesis by simp
qed

lemma tokenStep_link_full:
  "tokenStep 0x4C (\<lambda>v. 0x27EC \<notin> set (fst v) \<and> fst v \<noteq> [])
     (\<lambda>md. \<exists>label u. md = js ''['' @ escapeMarkdownV2 label @ js '']('' @ escapeForUrl u @ js '')''
        \<and> label \<noteq> [] \<and> u \<noteq> [])
     (linkCallback URL)"
  unfolding tokenStep_def
  by (auto simp: linkCallback_def escapeMarkdownV2_free split: sum.splits option.splits if_splits)

lemma extraction:
  assumes free: "0x27EC \<notin> set inputText"
    and ex: "extractSpans URL inputText = Inr (working, links, bolds, italics, spoilers)"
  shows "\<forall>tag i. occurrences (placeholder tag i) working \<le> 1"
    and "tagged {0x53, 0x49, 0x42, 0x4C} working"
    and "\<exists>t. working = escapeMarkdownV2 t"
    and "\<forall>md\<in>set links. \<exists>label u. md = js ''['' @ escapeMarkdownV2 label @ js ''](''  @ escapeForUrl u @ js '')''
           \<and> label \<noteq> [] \<and> u \<noteq> []"
    and "\<forall>md\<in>set bolds. \<exists>v. md = js ''*'' @ escapeMarkdownV2 v @ js ''*'' \<and> tagged {0x4C} v \<and> v \<noteq> []"
    and "\<forall>md\<in>set italics. \<exists>v. md = js ''_'' @ escapeMarkdownV2 v @ js ''_'' \<and> tagged {0x42, 0x4C} v \<and> v \<noteq> []"
    and "\<forall>md\<in>set spoilers. \<exists>v. md = js ''||'' @ escapeMarkdownV2 v @ js ''||'' \<and> tagged {0x49, 0x42, 0x4C} v \<and> v \<noteq> []"
proof -
  define text0 where "text0 = normalizeHeadings (normalizeCommonMd inputText)"
  from ex obtain text1 text2 text3 text4
    where s1: "replaceWith (linkCallback URL) (scanAll linkSpan None 0 text0) [] = Inr (text1, links)"
      and s2: "replaceWith (spanCallback 0x42 (js ''*'')) (scanAll (delimited (js ''*'') 1) None 0 text1) [] = Inr (text2, bolds)"
      and s3: "replaceWith (spanCallback 0x49 (js ''_'')) (scanAll (delimited (js ''_'') 1) None 0 text2) [] = Inr (text3, italics)"
      and s4: "replaceWith (spanCallback 0x53 (js ''||'')) (scanAll (delimited (js ''||'') 1) None 0 text3) [] = Inr (text4, spoilers)"
      and w: "working = escapeMarkdownV2 text4"
    by (auto simp: extractSpans_def text0_def Let_def matches_def split: sum.splits prod.splits)
  have f0: "0x27EC \<notin> set text0"
    unfolding text0_def using free by (intro normalizeHeadings_free normalizeCommonMd_free)
  have b0: "\<forall>tag i. occurrences (placeholder tag i) text0 \<le> 1"
    using f0 by (simp add: occurrences_free)
  have q1: "\<forall>v\<in>set (hits (scanAll linkSpan None 0 text0)). 0x27EC \<notin> set (fst v) \<and> fst v \<noteq> []"
    using f0 by (rule hits_free [rotated]) (use linkSpan_sub linkSpan_label in fastforce)
  have ok1: "stageOK {} 0x4C
      (\<lambda>md. \<exists>label u. md = js ''['' @ escapeMarkdownV2 label @ js ''](''  @ escapeForUrl u @ js '')''
         \<and> label \<noteq> [] \<and> u \<noteq> [])
      text0 [] text1 links"
    using stage [where T = "{}" and k = 0 and s = text0, OF _ tokenStep_link_full _ _ _ _ q1 s1]
      linkSpan_reserved tagged_free [OF f0] by auto
  have b1: "\<forall>tag i. occurrences (placeholder tag i) text1 \<le> 1"
    using ok1 b0 by (rule stageOK_bound)
  have w1: "tagged {0x4C} text1" using ok1 by (simp add: stageOK_def)
  have star: "\<forall>prev s v n. delimited (js ''*'') 1 prev s = Some (v, n) \<longrightarrow> s \<noteq> [] \<and> isReserved (hd s)"
    using delimited_reserved [of "js ''*''"] by (auto simp: js_def isReserved_def)
  have q2: "\<forall>v\<in>set (hits (scanAll (delimited (js ''*'') 1) None 0 text1)). tagged {0x4C} v \<and> v \<noteq> []"
    using w1 by (rule hits_suffix [rotated 2])
      (auto simp: js_def isDigit_def intro: delimited_tagged dest: delimited_nonempty)
  have ok2: "stageOK {0x4C} 0x42 (\<lambda>md. \<exists>v. md = js ''*'' @ escapeMarkdownV2 v @ js ''*'' \<and> tagged {0x4C} v \<and> v \<noteq> [])
      text1 [] text2 bolds"
    using stage [where T = "{0x4C}" and k = 0 and s = text1, OF star tokenStep_span _ _ _ _ q2 s2]
      w1 by (auto simp: isReserved_def js_def)
  have b2: "\<forall>tag i. occurrences (placeholder tag i) text2 \<le> 1"
    using ok2 b1 by (rule stageOK_bound)
  have w2: "tagged {0x42, 0x4C} text2" using ok2 by (simp add: stageOK_def)
  have under: "\<forall>prev s v n. delimited (js ''_'') 1 prev s = Some (v, n) \<longrightarrow> s \<noteq> [] \<and> isReserved (hd s)"
    using delimited_reserved [of "js ''_''"] by (auto simp: js_def isReserved_def)
  have q3: "\<forall>v\<in>set (hits (scanAll (delimited (js ''_'') 1) None 0 text2)). tagged {0x42, 0x4C} v \<and> v \<noteq> []"
    using w2 by (rule hits_suffix [rotated 2])
      (auto simp: js_def isDigit_def intro: delimited_tagged dest: delimited_nonempty)
  have ok3: "stageOK {0x42, 0x4C} 0x49 (\<lambda>md. \<exists>v. md = js ''_'' @ escapeMarkdownV2 v @ js ''_'' \<and> tagged {0x42, 0x4C} v \<and> v \<noteq> [])
      text2 [] text3 italics"
    using stage [where T = "{0x42, 0x4C}" and k = 0 and s = text2, OF under tokenStep_span _ _ _ _ q3 s3]
      w2 by (auto simp: isReserved_def js_def)
  have b3: "\<forall>tag i. occurrences (placeholder tag i) text3 \<le> 1"
    using ok3 b2 by (rule stageOK_bound)
  have w3: "tagged {0x49, 0x42, 0x4C} text3" using ok3 by (simp add: stageOK_def)
  have bar: "\<forall>prev s v n. delimited (js ''||'') 1 prev s = Some (v, n) \<longrightarrow> s \<noteq> [] \<and> isReserved (hd s)"
    using delimited_reserved [of "js ''||''"] by (auto simp: js_def isReserved_def)
  have q4: "\<forall>v\<in>set (hits (scanAll (delimited (js ''||'') 1) None 0 text3)). tagged {0x49, 0x42, 0x4C} v \<and> v \<noteq> []"
    using w3 by (rule hits_suffix [rotated 2])
      (auto simp: js_def isDigit_def intro: delimited_tagged dest: delimited_nonempty)
  have ok4: "stageOK {0x49, 0x42, 0x4C} 0x53
      (\<lambda>md. \<exists>v. md = js ''||'' @ escapeMarkdownV2 v @ js ''||'' \<and> tagged {0x49, 0x42, 0x4C} v \<and> v \<noteq> [])
      text3 [] text4 spoilers"
    using stage [where T = "{0x49, 0x42, 0x4C}" and k = 0 and s = text3, OF bar tokenStep_span _ _ _ _ q4 s4]
      w3 by (auto simp: isReserved_def js_def)
  have b4: "\<forall>tag i. occurrences (placeholder tag i) text4 \<le> 1"
    using ok4 b3 by (rule stageOK_bound)
  have w4: "tagged {0x53, 0x49, 0x42, 0x4C} text4" using ok4 by (simp add: stageOK_def)
  have esc: "replaceWith (\<lambda>v acc. Inr ([0x5C, v], acc)) (scanAll reservedChar None 0 text4) []
      = Inr (escapeMarkdownV2 text4, [])"
    by (simp add: replaceWith_substitute escapeMarkdownV2_def replaceAll_def matches_def)
  have q5: "\<forall>v\<in>set (hits (scanAll reservedChar None 0 text4)). isReserved v"
    using hits_scanAll [of reservedChar isReserved] reservedChar_reserved by blast
  have m5: "\<forall>prev s v n. reservedChar prev s = Some (v, n) \<longrightarrow> s \<noteq> [] \<and> isReserved (hd s)"
    using reservedChar_reserved by blast
  have t5: "\<forall>t\<in>{0x53, 0x49, 0x42, 0x4C}. \<not> isReserved t"
    by (simp add: isReserved_def js_def)
  have ok5: "stageOK {0x53, 0x49, 0x42, 0x4C} 0x45 (\<lambda>md. True) text4 [] (escapeMarkdownV2 text4) []"
    using stage [where T = "{0x53, 0x49, 0x42, 0x4C}" and k = 0 and s = text4 and X = "0x45" and G = "\<lambda>md. True",
        OF m5 tokenStep_escape _ _ t5 _ q5 esc] w4 by simp
  have "\<forall>tag i. occurrences (placeholder tag i) (escapeMarkdownV2 text4) \<le> 1"
    using ok5 b4 by (rule stageOK_bound)
  with w show "\<forall>tag i. occurrences (placeholder tag i) working \<le> 1" by simp
  have "tagged {0x53, 0x49, 0x42, 0x4C} (escapeMarkdownV2 text4)"
    using w4 by (rule escapeMarkdownV2_tagged [rotated]) (simp add: isReserved_def js_def)
  with w show "tagged {0x53, 0x49, 0x42, 0x4C} working" by simp
  from w show "\<exists>t. working = escapeMarkdownV2 t" by blast
  from ok1 show "\<forall>md\<in>set links. \<exists>label u. md = js ''['' @ escapeMarkdownV2 label @ js ''](''  @ escapeForUrl u @ js '')''
           \<and> label \<noteq> [] \<and> u \<noteq> []"
    by (simp add: stageOK_def)
  from ok2 show "\<forall>md\<in>set bolds. \<exists>v. md = js ''*'' @ escapeMarkdownV2 v @ js ''*'' \<and> tagged {0x4C} v \<and> v \<noteq> []"
    by (simp add: stageOK_def)
  from ok3 show "\<forall>md\<in>set italics. \<exists>v. md = js ''_'' @ escapeMarkdownV2 v @ js ''_'' \<and> tagged {0x42, 0x4C} v \<and> v \<noteq> []"
    by (simp add: stageOK_def)
  from ok4 show "\<forall>md\<in>set spoilers. \<exists>v. md = js ''||'' @ escapeMarkdownV2 v @ js ''||'' \<and> tagged {0x49, 0x42, 0x4C} v \<and> v \<noteq> []"
    by (simp add: stageOK_def)
qed

lemma plainSpans_Inr:
  assumes "plainSpans URL inputText"
  obtains working links bolds italics spoilers
  where "extractSpans URL inputText = Inr (working, links, bolds, italics, spoilers)"
    and "0x27EC \<notin> set inputText"
    and "\<forall>md\<in>set links. 0x27EC \<notin> set md"
    and "\<forall>md\<in>set links \<union> set bolds \<union> set italics \<union> set spoilers. patternFree md"
  using assms
  by (auto simp: plainSpans_def list_all_iff split: sum.splits prod.splits)


section \<open>The escaper: results\<close>

text \<open>
  C2 as stated fails: the url of a link is escaped for \<^verbatim>\<open>)\<close> and backslash only, so with a
  URL constructor that serialises \<^verbatim>\<open>http://b.c\<close> as \<^verbatim>\<open>http://b.c/\<close> the output for
  \<^verbatim>\<open>[a](http://b.c)\<close> is \<^verbatim>\<open>[a](http://b.c/)\<close>, whose unescaped reserved characters are the
  link delimiters and the dot of the url, which delimits no span.
\<close>

theorem processMarkdownV2Safe_url_dot_unescaped:
  "processMarkdownV2Safe (urlTable [(js ''http://b.c'', js ''http://b.c/'')]) (js ''[a](http://b.c)'')
     = Inr (js ''[a](http://b.c/)'')
   \<and> unescaped (js ''[a](http://b.c/)'') = js ''[](.)''"
  by (simp add: escaper_defs decimal.simps [of 0])

text \<open>
  The hypotheses of the amended claims C2 and C5 leave out the inputs on which the
  restoration goes astray. It reads the stored span as a replacement pattern: with two
  bold spans whose interior is \<^verbatim>\<open>$'\<close> the first restoration copies the rest of the text,
  the second token with it, into the span; the token then occurs twice, the second
  restoration replaces the copy, the output has five unescaped asterisks and a
  placeholder is left behind. And a token spelled by the input is found by the
  restoration like an inserted one: with \<^verbatim>\<open>B0\<close> between U+27EC and U+27ED as the label of a
  link, the bold span lands inside the label.
\<close>

lemma processMarkdownV2Safe_dollar_pattern:
  "extractSpans URL (js ''*$'' @ [0x27] @ js ''* *$'' @ [0x27] @ js ''*'')
     = Inr (placeholder 0x42 0 @ js '' '' @ placeholder 0x42 1,
            [], [js ''*$'' @ [0x27] @ js ''*'', js ''*$'' @ [0x27] @ js ''*''], [], [])
   \<and> replaceFirst (placeholder 0x42 0) (js ''*$'' @ [0x27] @ js ''*'')
         (placeholder 0x42 0 @ js '' '' @ placeholder 0x42 1)
       = js ''* '' @ placeholder 0x42 1 @ js ''* '' @ placeholder 0x42 1
   \<and> occurrences (placeholder 0x42 1) (js ''* '' @ placeholder 0x42 1 @ js ''* '' @ placeholder 0x42 1) = 2
   \<and> processMarkdownV2Safe URL (js ''*$'' @ [0x27] @ js ''* *$'' @ [0x27] @ js ''*'')
       = Inr (js ''* ** '' @ placeholder 0x42 1 @ js ''** '' @ placeholder 0x42 1)
   \<and> \<not> flat (js ''* ** '' @ placeholder 0x42 1 @ js ''** '' @ placeholder 0x42 1)"
  by (simp add: escaper_defs flat_def decimal.simps [of 0] decimal.simps [of 1] decimal.simps [of "Suc 0"])

lemma processMarkdownV2Safe_token_in_label:
  "processMarkdownV2Safe (urlTable [(js ''http://b.c'', js ''http://b.c/'')])
     (js ''['' @ [0x27EC] @ js ''B0'' @ [0x27ED] @ js ''](http://b.c) *x*'')
     = Inr (js ''[*x*](http://b.c/) '' @ [0x27EC] @ js ''B0'' @ [0x27ED])
   \<and> \<not> flat (js ''[*x*](http://b.c/) '' @ [0x27EC] @ js ''B0'' @ [0x27ED])"
  by (simp add: escaper_defs flat_def decimal.simps [of 0])

text \<open>
  C2, amended: for every input text that has no U+27EC, whose links are stored without
  U+27EC (their labels come from the input, so this is about the serialised urls) and
  whose extracted spans are stored free of replacement patterns (no \<^verbatim>\<open>$\<close> followed by
  \<^verbatim>\<open>$\<close>, \<^verbatim>\<open>&\<close>, a backquote or \<^verbatim>\<open>'\<close>), \<open>processMarkdownV2Safe\<close> returns a flat text:
  unreserved characters, backslashes each followed by the reserved character it
  escapes, and closed, non-empty spans \<^verbatim>\<open>*...*\<close>, \<^verbatim>\<open>_..._\<close>, \<^verbatim>\<open>||...||\<close> and \<^verbatim>\<open>[...](url)\<close>
  that do not nest; inside a span every reserved character is escaped too, except in
  the url of a link, where only \<^verbatim>\<open>)\<close> and backslash are. So no reserved character is
  unescaped outside the span delimiters and the urls.
\<close>

theorem processMarkdownV2Safe_flat:
  assumes "plainSpans URL inputText"
  shows "\<exists>out. processMarkdownV2Safe URL inputText = Inr out \<and> flat out"
proof (cases "inputText = []")
  case True
  then show ?thesis by (simp add: processMarkdownV2Safe_def flat_def)
next
  case False
  from assms obtain working links bolds italics spoilers
    where ex: "extractSpans URL inputText = Inr (working, links, bolds, italics, spoilers)"
      and free: "0x27EC \<notin> set inputText"
      and lfree: "\<forall>md\<in>set links. 0x27EC \<notin> set md"
      and dollar: "\<forall>md\<in>set links \<union> set bolds \<union> set italics \<union> set spoilers. patternFree md"
    by (rule plainSpans_Inr)
  note e = extraction [OF free ex]
  let ?hotL = "\<lambda>c :: jschar. c \<in> {0x53, 0x49, 0x42, 0x4C}"
  let ?hotB = "\<lambda>c :: jschar. c \<in> {0x53, 0x49, 0x42}"
  let ?hotI = "\<lambda>c :: jschar. c \<in> {0x53, 0x49}"
  let ?hotS = "\<lambda>c :: jschar. c \<in> {0x53}"
  have g0: "guardRun ?hotL (Top, False) working = Some (Top, False)"
    using e(3) guardRun_escape_top by blast
  have L: "\<forall>md\<in>set links. guardRun ?hotL (Top, False) md = Some (Top, False) \<and> patternFree md"
  proof
    fix md assume md: "md \<in> set links"
    with e(4) obtain label u
      where "md = js ''['' @ escapeMarkdownV2 label @ js ''](''  @ escapeForUrl u @ js '')''"
        "label \<noteq> []" "u \<noteq> []" by blast
    then have "flatRun Top md = Some Top" using flat_link by simp
    moreover from md lfree have "0x27EC \<notin> set md" by blast
    ultimately have "guardRun ?hotL (Top, False) md = Some (Top, False)"
      by (simp add: guardRun_free)
    with md dollar show "guardRun ?hotL (Top, False) md = Some (Top, False) \<and> patternFree md" by blast
  qed
  let ?t1 = "restore 0x4C 0 links working"
  have "guardRun ?hotL (Top, False) ?t1 = Some (Top, False)"
    using restore_guard [of ?hotL "0x4C", OF _ _ L g0] by (simp add: isReserved_def js_def)
  then have g1: "guardRun ?hotB (Top, False) ?t1 = Some (Top, False)"
    by (rule guardRun_mono [rotated]) simp
  have B: "\<forall>md\<in>set bolds. guardRun ?hotB (Top, False) md = Some (Top, False) \<and> patternFree md"
  proof
    fix md assume md: "md \<in> set bolds"
    with e(5) obtain v where "md = js ''*'' @ escapeMarkdownV2 v @ js ''*''" "tagged {0x4C} v" "v \<noteq> []" by blast
    then have "guardRun ?hotB (Top, False) md = Some (Top, False)"
      using guardRun_span(1) [of "{0x4C}" ?hotB v] by (simp add: isReserved_def js_def)
    with md dollar show "guardRun ?hotB (Top, False) md = Some (Top, False) \<and> patternFree md" by blast
  qed
  let ?t2 = "restore 0x42 0 bolds ?t1"
  have "guardRun ?hotB (Top, False) ?t2 = Some (Top, False)"
    using restore_guard [of ?hotB "0x42", OF _ _ B g1] by (simp add: isReserved_def js_def)
  then have g2: "guardRun ?hotI (Top, False) ?t2 = Some (Top, False)"
    by (rule guardRun_mono [rotated]) simp
  have I: "\<forall>md\<in>set italics. guardRun ?hotI (Top, False) md = Some (Top, False) \<and> patternFree md"
  proof
    fix md assume md: "md \<in> set italics"
    with e(6) obtain v where "md = js ''_'' @ escapeMarkdownV2 v @ js ''_''" "tagged {0x42, 0x4C} v" "v \<noteq> []" by blast
    then have "guardRun ?hotI (Top, False) md = Some (Top, False)"
      using guardRun_span(2) [of "{0x42, 0x4C}" ?hotI v] by (simp add: isReserved_def js_def)
    with md dollar show "guardRun ?hotI (Top, False) md = Some (Top, False) \<and> patternFree md" by blast
  qed
  let ?t3 = "restore 0x49 0 italics ?t2"
  have "guardRun ?hotI (Top, False) ?t3 = Some (Top, False)"
    using restore_guard [of ?hotI "0x49", OF _ _ I g2] by (simp add: isReserved_def js_def)
  then have g3: "guardRun ?hotS (Top, False) ?t3 = Some (Top, False)"
    by (rule guardRun_mono [rotated]) simp
  have S: "\<forall>md\<in>set spoilers. guardRun ?hotS (Top, False) md = Some (Top, False) \<and> patternFree md"
  proof
    fix md assume md: "md \<in> set spoilers"
    with e(7) obtain v where "md = js ''||'' @ escapeMarkdownV2 v @ js ''||''" "tagged {0x49, 0x42, 0x4C} v" "v \<noteq> []" by blast
    then have "guardRun ?hotS (Top, False) md = Some (Top, False)"
      using guardRun_span(3) [of "{0x49, 0x42, 0x4C}" ?hotS v] by (simp add: isReserved_def js_def)
    with md dollar show "guardRun ?hotS (Top, False) md = Some (Top, False) \<and> patternFree md" by blast
  qed
  have "guardRun ?hotS (Top, False) (restore 0x53 0 spoilers ?t3) = Some (Top, False)"
    using restore_guard [of ?hotS "0x53", OF _ _ S g3] by (simp add: isReserved_def js_def)
  then have "flat (restore 0x53 0 spoilers ?t3)"
    unfolding flat_def by (rule guardRun_flat)
  with False ex show ?thesis by (simp add: processMarkdownV2Safe_def)
qed

theorem processMarkdownV2Safe_flat_witness:
  "plainSpans (urlTable [(js ''http://b.c'', js ''http://b.c/'')]) (js ''[a.b](http://b.c) *2+2$* a*b $'')
   \<and> processMarkdownV2Safe (urlTable [(js ''http://b.c'', js ''http://b.c/'')]) (js ''[a.b](http://b.c) *2+2$* a*b $'')
       = Inr (js ''[a'' @ [0x5C] @ js ''.b](http://b.c/) *2'' @ [0x5C] @ js ''+2$* a'' @ [0x5C] @ js ''*b $'')
   \<and> flat (js ''[a'' @ [0x5C] @ js ''.b](http://b.c/) *2'' @ [0x5C] @ js ''+2$* a'' @ [0x5C] @ js ''*b $'')"
proof -
  have p: "plainSpans (urlTable [(js ''http://b.c'', js ''http://b.c/'')]) (js ''[a.b](http://b.c) *2+2$* a*b $'')"
    by (simp add: plainSpans_def escaper_defs decimal.simps [of 0])
  have v: "processMarkdownV2Safe (urlTable [(js ''http://b.c'', js ''http://b.c/'')]) (js ''[a.b](http://b.c) *2+2$* a*b $'')
       = Inr (js ''[a'' @ [0x5C] @ js ''.b](http://b.c/) *2'' @ [0x5C] @ js ''+2$* a'' @ [0x5C] @ js ''*b $'')"
    by (simp add: escaper_defs decimal.simps [of 0])
  from processMarkdownV2Safe_flat [OF p] v
  have "flat (js ''[a'' @ [0x5C] @ js ''.b](http://b.c/) *2'' @ [0x5C] @ js ''+2$* a'' @ [0x5C] @ js ''*b $'')"
    by simp
  with p v show ?thesis by simp
qed

text \<open>
  The predicate is not vacuous: a bare dot, an asterisk, an underscore, a bar or a
  bracket that opens no closed span, an empty span, an unescaped underscore inside a
  bold span, a backslash before an ordinary letter and an unclosed url are all refused.
\<close>

lemma flat_refuses:
  "\<not> flat (js ''a.b'')" "\<not> flat (js ''2*3'')" "\<not> flat (js ''a_b'')" "\<not> flat (js ''a|b'')"
  "\<not> flat (js ''a[b'')" "\<not> flat (js ''a**b'')" "\<not> flat (js ''*a_b*'')"
  "\<not> flat ([0x5C] @ js ''a'')" "\<not> flat (js ''[a](b'')" "\<not> flat (js ''[a]()'')"
  by (simp_all add: flat_def js_def isReserved_def)

text \<open>
  C3 as stated fails: with \<open>maxLen = 0\<close> the one-letter text reaches the hard slice,
  where \<^verbatim>\<open>new RegExp('.{1,0}', 'g')\<close> throws a SyntaxError that nothing catches.
\<close>

theorem chunkForTelegram_zero_raises:
  "chunkForTelegram (js ''a'') 0 = Inl SyntaxError"
  by (simp add: segmenter_defs)

text \<open>
  C3, amended: for every text and every integer \<open>maxLen\<close> other than 0,
  \<open>chunkForTelegram\<close> returns normally, and for every text, whatever the URL constructor
  returns or throws, \<open>processMarkdownV2Safe\<close> returns normally. Both are statements
  about the control flow of the two functions and leave the limits of the engine aside:
  memory, the depth of the stack, and the number of arguments of one call, which
  \<^verbatim>\<open>parts.push(...hardPieces)\<close> exceeds, with a RangeError, when one word is cut into very
  many pieces.
\<close>

theorem returns_normally:
  "(maxLen \<noteq> 0 \<longrightarrow> (\<exists>r. chunkForTelegram text maxLen = Inr r))
   \<and> (\<exists>out. processMarkdownV2Safe URL inputText = Inr out)"
proof
  show "maxLen \<noteq> 0 \<longrightarrow> (\<exists>r. chunkForTelegram text maxLen = Inr r)"
  proof
    assume ne: "maxLen \<noteq> 0"
    obtain parts b where "paragraphLoop maxLen (split paragraphBreak text) ([], []) = Inr (parts, b)"
      using paragraphLoop_all [OF ne, where P = "\<lambda>x. True" and parts = "[]"
          and ps = "split paragraphBreak text" and buffer = "[]"] by auto
    then show "\<exists>r. chunkForTelegram text maxLen = Inr r" by (simp add: chunkForTelegram_def)
  qed
  show "\<exists>out. processMarkdownV2Safe URL inputText = Inr out"
    by (rule processMarkdownV2Safe_returns)
qed

theorem returns_normally_witness:
  "(7::int) \<noteq> 0
   \<and> chunkForTelegram (js ''Hello wor. Th'') 7 = Inr [js ''Hello'', js ''wor.'', js ''Th'']
   \<and> processMarkdownV2Safe (\<lambda>raw. Inl TypeError) (js ''[a.b](c.de) x'')
       = Inr (js ''a'' @ [0x5C, 0x5C, 0x5C] @ js ''.b x'')"
  using returns_normally [of 7 "js ''Hello wor. Th''" "\<lambda>raw. Inl TypeError" "js ''[a.b](c.de) x''"]
  by (simp add: segmenter_defs escaper_defs)




text \<open>
  C6, at the input \<^verbatim>\<open>[a.b](not a url)\<close>, whose url the constructor rejects and which is
  not domain-like: the callback returns the escaped label \<^verbatim>\<open>a\.b\<close> into the working text,
  the global escape then escapes it again, and the output is \<^verbatim>\<open>a\\\.b\<close>, in which the
  escaped label does not occur.
\<close>

theorem processMarkdownV2Safe_invalid_link_label_twice:
  "escapeMarkdownV2 (js ''a.b'') = js ''a'' @ [0x5C] @ js ''.b''
   \<and> processMarkdownV2Safe (urlTable []) (js ''[a.b](not a url)'')
       = Inr (js ''a'' @ [0x5C, 0x5C, 0x5C] @ js ''.b'')
   \<and> indexOf (escapeMarkdownV2 (js ''a.b'')) (js ''a'' @ [0x5C, 0x5C, 0x5C] @ js ''.b'') = None"
  by (simp add: escaper_defs)

text \<open>
  C8 as stated fails: in \<^verbatim>\<open>**bold** and _ital_ and # Heading\<close> the \<^verbatim>\<open>#\<close> does not begin
  a line, so the heading is not rewritten: no bold span \<^verbatim>\<open>*Heading*\<close> occurs in the output.
\<close>

theorem processMarkdownV2Safe_inline_heading_not_bold:
  "processMarkdownV2Safe (urlTable []) (js ''**bold** and _ital_ and # Heading'')
     = Inr (js ''*bold* and _ital_ and '' @ [0x5C] @ js ''# Heading'')
   \<and> indexOf (js ''*Heading*'') (js ''*bold* and _ital_ and '' @ [0x5C] @ js ''# Heading'') = None"
  by (simp add: escaper_defs decimal.simps [of 0])

text \<open>
  C8, amended: \<open>processMarkdownV2Safe\<close> of \<^verbatim>\<open>**bold** and _ital_ and # Heading\<close> is
  \<^verbatim>\<open>*bold* and _ital_ and \# Heading\<close>: the bold and italic spans have single delimiters,
  and the \<^verbatim>\<open>#\<close>, which is not at the start of a line, is backslash-escaped like any
  other reserved character outside the spans.
\<close>

theorem processMarkdownV2Safe_concrete_case:
  "processMarkdownV2Safe URL (js ''**bold** and _ital_ and # Heading'')
    = Inr (js ''*bold* and _ital_ and '' @ [0x5C] @ js ''# Heading'')"
  by (simp add: escaper_defs decimal.simps [of 0])

text \<open>
  C9: \<open>processMarkdownV2Safe\<close> is not idempotent. The output for \<^verbatim>\<open>a.b\<close> is \<^verbatim>\<open>a\.b\<close>, and
  applying the function to that output gives \<^verbatim>\<open>a\\\.b\<close>, which differs from it: the
  backslash and the dot introduced by the first application are escaped again.
\<close>

theorem processMarkdownV2Safe_not_idempotent:
  "processMarkdownV2Safe URL (js ''a.b'') = Inr (js ''a'' @ [0x5C] @ js ''.b'')
   \<and> processMarkdownV2Safe URL (js ''a'' @ [0x5C] @ js ''.b'') = Inr (js ''a'' @ [0x5C, 0x5C, 0x5C] @ js ''.b'')
   \<and> js ''a'' @ [0x5C, 0x5C, 0x5C] @ js ''.b'' \<noteq> js ''a'' @ [0x5C] @ js ''.b''"
  by (simp add: escaper_defs)

end
